theory Spec2Isabelle
  imports Main "HOL-Library.Char_ord" "HOL-Library.List_Lexorder" "HOL-Library.AList"
    "HOL-Library.Multiset"
begin

section \<open>Data model\<close>

text \<open>
  Grid cells are pairs \<open>(row, col)\<close> of Python integers.  Text is kept as 8-bit
  strings; the grid alphabet is ASCII, and the two non-ASCII characters of the solver's
  report (an arrow and a dash) are written as their UTF-8 bytes.  The four direction names
  \<open>up\<close>, \<open>down\<close>, \<open>left\<close>, \<open>right\<close> are the keys of \<open>DIR_DELTA\<close> (constants.py)
  and of \<open>sort_keys\<close> (level_manager.py); inside the program they are the
  values of \<open>direction\<close>, while the metadata of a level still carries the raw string,
  which \<open>load_level\<close> looks up (raising \<open>KeyError\<close> on any other string).
\<close>

type_synonym cell = "int \<times> int"

datatype direction = Up | Down | Left | Right

fun DIR_DELTA :: "direction \<Rightarrow> int \<times> int" where
  "DIR_DELTA Up = (-1, 0)"
| "DIR_DELTA Down = (1, 0)"
| "DIR_DELTA Left = (0, -1)"
| "DIR_DELTA Right = (0, 1)"

fun direction_name :: "direction \<Rightarrow> string" where
  "direction_name Up = ''up''"
| "direction_name Down = ''down''"
| "direction_name Left = ''left''"
| "direction_name Right = ''right''"

definition direction_of_name :: "string \<Rightarrow> direction option" where
  "direction_of_name s =
     (if s = ''right'' then Some Right
      else if s = ''left'' then Some Left
      else if s = ''down'' then Some Down
      else if s = ''up'' then Some Up
      else None)"

text \<open>Every \<open>raise\<close> of the modelled code is one constructor.\<close>

datatype error =
    MultipleHeads string
  | NotOnGrid string
  | NoHead string
  | HeadNotLeading string cell cell
  | KeyError string
  | EmptyRange
  | IndexError

text \<open>entities.py: class \<open>Worm\<close>; \<open>segments\<close> run tail to head.\<close>

record Worm =
  worm_id :: string
  segments :: "cell list"
  direction :: direction
  color :: string

text \<open>The property \<open>head\<close> is \<open>segments[-1]\<close>, an \<open>IndexError\<close> on an empty list.\<close>

definition head :: "Worm \<Rightarrow> error + cell" where
  "head w = (case segments w of [] \<Rightarrow> Inl IndexError | _ \<Rightarrow> Inr (last (segments w)))"

section \<open>solver.py\<close>

definition in_grid :: "int \<Rightarrow> int \<Rightarrow> int \<Rightarrow> int \<Rightarrow> bool" where
  "in_grid r c rows cols \<longleftrightarrow> 0 \<le> r \<and> r < rows \<and> 0 \<le> c \<and> c < cols"

definition build_occupancy :: "Worm list \<Rightarrow> (cell \<rightharpoonup> string)" where
  "build_occupancy worms =
     fold (\<lambda>w occ. fold (\<lambda>seg occ'. occ'(seg \<mapsto> worm_id w)) (segments w) occ) worms Map.empty"

text \<open>
  The \<open>while True\<close> loop of \<open>_first_blocker\<close>: step first, then test the bounds, then
  the owner of the cell.
\<close>

function first_blocker_loop ::
  "direction \<Rightarrow> int \<Rightarrow> int \<Rightarrow> (cell \<rightharpoonup> string) \<Rightarrow> string \<Rightarrow> int \<Rightarrow> int \<Rightarrow> string option" where
  "first_blocker_loop d r c occupancy wid rows cols =
     (if \<not> in_grid (r + fst (DIR_DELTA d)) (c + snd (DIR_DELTA d)) rows cols then None
      else if occupancy (r + fst (DIR_DELTA d), c + snd (DIR_DELTA d)) \<noteq> None
            \<and> occupancy (r + fst (DIR_DELTA d), c + snd (DIR_DELTA d)) \<noteq> Some wid
        then occupancy (r + fst (DIR_DELTA d), c + snd (DIR_DELTA d))
      else first_blocker_loop d (r + fst (DIR_DELTA d)) (c + snd (DIR_DELTA d))
             occupancy wid rows cols)"
  by pat_completeness auto
termination
  by (relation "measure (\<lambda>(d, r, c, occupancy, wid, rows, cols).
        case d of Up \<Rightarrow> nat (r + 1) | Down \<Rightarrow> nat (rows - r)
                | Left \<Rightarrow> nat (c + 1) | Right \<Rightarrow> nat (cols - c))")
     (auto simp: in_grid_def split: direction.splits)

declare first_blocker_loop.simps [simp del]

definition first_blocker :: "Worm \<Rightarrow> (cell \<rightharpoonup> string) \<Rightarrow> int \<Rightarrow> int \<Rightarrow> error + string option" where
  "first_blocker worm occupancy rows cols =
     (case head worm of
        Inl e \<Rightarrow> Inl e
      | Inr (r, c) \<Rightarrow> Inr (first_blocker_loop (direction worm) r c occupancy (worm_id worm) rows cols))"

text \<open>
  \<open>_build_dependency_graph\<close>: a dictionary from worm id to the set of its blockers.  The
  dictionary is an association list in insertion order; \<open>AList.update\<close> overwrites the
  value of a key that is present and appends a new key, as a Python \<open>dict\<close> does.
\<close>

type_synonym graph = "(string \<times> string set) list"

definition init_graph :: "Worm list \<Rightarrow> graph" where
  "init_graph worms = fold (\<lambda>w g. AList.update (worm_id w) {} g) worms []"

fun add_blockers ::
  "Worm list \<Rightarrow> (cell \<rightharpoonup> string) \<Rightarrow> int \<Rightarrow> int \<Rightarrow> graph \<Rightarrow> error + graph" where
  "add_blockers [] occupancy rows cols blocked_by = Inr blocked_by"
| "add_blockers (w # ws) occupancy rows cols blocked_by =
     (case first_blocker w occupancy rows cols of
        Inl e \<Rightarrow> Inl e
      | Inr None \<Rightarrow> add_blockers ws occupancy rows cols blocked_by
      | Inr (Some blocker) \<Rightarrow>
          (case map_of blocked_by (worm_id w) of
             None \<Rightarrow> Inl (KeyError (worm_id w))
           | Some deps \<Rightarrow>
               add_blockers ws occupancy rows cols
                 (AList.update (worm_id w) (insert blocker deps) blocked_by)))"

definition build_dependency_graph :: "Worm list \<Rightarrow> int \<Rightarrow> int \<Rightarrow> error + graph" where
  "build_dependency_graph worms rows cols =
     add_blockers worms (build_occupancy worms) rows cols (init_graph worms)"

subsection \<open>Report text\<close>

fun show_nat :: "nat \<Rightarrow> string" where
  "show_nat n =
     (if n < 10 then [char_of (48 + n)] else show_nat (n div 10) @ [char_of (48 + n mod 10)])"

declare show_nat.simps [simp del]

fun join :: "string \<Rightarrow> string list \<Rightarrow> string" where
  "join sep [] = []"
| "join sep [x] = x"
| "join sep (x # y # ys) = x @ sep @ join sep (y # ys)"

definition em_dash :: string where
  "em_dash = [CHR 0xE2, CHR 0x80, CHR 0x94]"

definition right_arrow :: string where
  "right_arrow = [CHR 0xE2, CHR 0x86, CHR 0x92]"

definition deps_of :: "graph \<Rightarrow> string \<Rightarrow> string set" where
  "deps_of g wid = (case map_of g wid of None \<Rightarrow> {} | Some deps \<Rightarrow> deps)"

definition free_of :: "graph \<Rightarrow> string list" where
  "free_of g = sort (map fst (filter (\<lambda>(wid, deps). deps = {}) g))"

definition blocked_of :: "graph \<Rightarrow> string list" where
  "blocked_of g = sort (map fst (filter (\<lambda>(wid, deps). deps \<noteq> {}) g))"

definition deadlock_report :: "nat \<Rightarrow> graph \<Rightarrow> Worm list \<Rightarrow> string list" where
  "deadlock_report round_num g worms =
     [''Round '' @ show_nat round_num @ '': DEADLOCK'']
     @ map (\<lambda>wid. ''  ['' @ wid @ ''] blocked by: ''
                    @ join '', '' (sorted_list_of_set (deps_of g wid)))
           (sort (map fst g))
     @ [[],
        ''Remaining worms ('' @ show_nat (length worms) @ ''): ''
          @ join '', '' (sort (map worm_id worms)),
        ''Verdict: UNSOLVABLE '' @ em_dash @ '' cyclic dependency detected.'']"

definition round_report :: "nat \<Rightarrow> graph \<Rightarrow> string list" where
  "round_report round_num g =
     [''Round '' @ show_nat round_num @ '': extract ''
        @ join '', '' (map (\<lambda>wid. ''['' @ wid @ '']'') (free_of g))]
     @ map (\<lambda>wid. ''  ['' @ wid @ ''] still blocked by: ''
                    @ join '', '' (sorted_list_of_set (deps_of g wid)))
           (blocked_of g)"

definition final_report :: "string list \<Rightarrow> nat \<Rightarrow> string list" where
  "final_report extraction_order round_num =
     [[],
      ''Extraction order: '' @ join ('' '' @ right_arrow @ '' '') extraction_order
        @ ''  ('' @ show_nat round_num @ '' round''
        @ (if round_num \<noteq> 1 then ''s'' else []) @ '')'',
      ''Verdict: SOLVABLE'']"

subsection \<open>Keys of the graph\<close>

lemma keys_update: "fst ` set (AList.update k v al) = insert k (fst ` set al)"
  by (induction al) auto

lemma keys_fold_update:
  "fst ` set (fold (\<lambda>w g. AList.update (worm_id w) {} g) ws g0)
     = worm_id ` set ws \<union> fst ` set g0"
  by (induction ws arbitrary: g0) (auto simp: keys_update)

lemma keys_init_graph: "fst ` set (init_graph ws) = worm_id ` set ws"
  by (simp add: init_graph_def keys_fold_update)

lemma keys_add_blockers:
  "add_blockers ws occ rows cols g = Inr g' \<Longrightarrow> fst ` set g' = fst ` set g"
proof (induction ws arbitrary: g)
  case Nil
  then show ?case by simp
next
  case (Cons w ws)
  show ?case
  proof (cases "first_blocker w occ rows cols")
    case (Inl e)
    with Cons.prems show ?thesis by simp
  next
    case (Inr b)
    show ?thesis
    proof (cases b)
      case None
      with Inr Cons show ?thesis by simp
    next
      case (Some blocker)
      with Inr Cons.prems obtain deps where
        d: "map_of g (worm_id w) = Some deps" and
        r: "add_blockers ws occ rows cols
              (AList.update (worm_id w) (insert blocker deps) g) = Inr g'"
        by (auto split: option.splits)
      from d have "worm_id w \<in> fst ` set g"
        by (metis domI dom_map_of_conv_image_fst)
      with Cons.IH [OF r] show ?thesis
        by (auto simp: keys_update)
    qed
  qed
qed

lemma keys_build_dependency_graph:
  "build_dependency_graph ws rows cols = Inr g \<Longrightarrow> fst ` set g = worm_id ` set ws"
  unfolding build_dependency_graph_def
  by (drule keys_add_blockers) (simp add: keys_init_graph)

lemma free_of_subset: "set (free_of g) \<subseteq> fst ` set g"
  by (auto simp: free_of_def)

lemma extract_shrinks:
  assumes "build_dependency_graph ws rows cols = Inr g" and "free_of g \<noteq> []"
  shows "length (filter (\<lambda>w. worm_id w \<notin> set (free_of g)) ws) < length ws"
proof -
  from assms(2) obtain k where k: "k \<in> set (free_of g)"
    by (cases "free_of g") auto
  with free_of_subset have "k \<in> fst ` set g" by blast
  with keys_build_dependency_graph [OF assms(1)] obtain w where
    "w \<in> set ws" "worm_id w = k" by auto
  with k show ?thesis
    by (intro length_filter_less [of w]) auto
qed

subsection \<open>The solver loop\<close>

text \<open>
  \<open>is_solvable\<close>, the loop \<open>while worms\<close>.  The state is the remaining worms, the report,
  the extraction order and the round counter; the result also hands back the last two,
  which the source formats into the report.
\<close>

function is_solvable_loop ::
  "int \<Rightarrow> int \<Rightarrow> Worm list \<Rightarrow> string list \<Rightarrow> string list \<Rightarrow> nat
     \<Rightarrow> error + (bool \<times> string list \<times> string list \<times> nat)" where
  "is_solvable_loop rows cols worms report extraction_order round_num =
     (if worms = [] then
        Inr (True, report @ final_report extraction_order round_num,
             extraction_order, round_num)
      else
        (case build_dependency_graph worms rows cols of
           Inl e \<Rightarrow> Inl e
         | Inr g \<Rightarrow>
             if free_of g = [] then
               Inr (False, report @ deadlock_report (Suc round_num) g worms,
                    extraction_order, Suc round_num)
             else
               is_solvable_loop rows cols
                 (filter (\<lambda>w. worm_id w \<notin> set (free_of g)) worms)
                 (report @ round_report (Suc round_num) g)
                 (extraction_order @ free_of g)
                 (Suc round_num)))"
  by pat_completeness auto
termination
  by (relation "measure (\<lambda>(rows, cols, worms, report, extraction_order, round_num).
        length worms)")
     (auto simp: extract_shrinks)

declare is_solvable_loop.simps [simp del]

section \<open>level_manager.py\<close>

text \<open>
  The level dictionary.  \<open>name\<close> and a worm's \<open>color\<close> are optional keys (read with
  \<open>get\<close>); the metadata dictionary keeps its insertion order.
\<close>

record worm_meta =
  meta_color :: "string option"
  meta_direction :: string

record level_data =
  ld_name :: "string option"
  ld_rows :: int
  ld_cols :: int
  ld_grid :: "string list"
  ld_worms :: "(string \<times> worm_meta) list"

definition is_upper :: "char \<Rightarrow> bool" where
  "is_upper ch \<longleftrightarrow> CHR ''A'' \<le> ch \<and> ch \<le> CHR ''Z''"

definition is_lower :: "char \<Rightarrow> bool" where
  "is_lower ch \<longleftrightarrow> CHR ''a'' \<le> ch \<and> ch \<le> CHR ''z''"

definition upper_char :: "char \<Rightarrow> char" where
  "upper_char ch = (if is_lower ch then char_of (of_char ch - (32::nat)) else ch)"

definition lower_char :: "char \<Rightarrow> char" where
  "lower_char ch = (if is_upper ch then char_of (of_char ch + (32::nat)) else ch)"

text \<open>An entry of \<open>cell_map\<close>: the head, if one was seen, and the body cells in scan order.\<close>

type_synonym entry = "cell option \<times> cell list"

fun scan_row :: "nat \<Rightarrow> nat \<Rightarrow> string \<Rightarrow> (string \<rightharpoonup> entry) \<Rightarrow> error + (string \<rightharpoonup> entry)" where
  "scan_row r c [] cell_map = Inr cell_map"
| "scan_row r c (ch # rest) cell_map =
     (if ch = CHR ''.'' \<or> ch = CHR '' '' then scan_row r (Suc c) rest cell_map
      else
        let wid = [upper_char ch];
            entry = (case cell_map wid of None \<Rightarrow> (None, []) | Some e \<Rightarrow> e)
        in if is_upper ch then
             (if fst entry \<noteq> None then Inl (MultipleHeads wid)
              else scan_row r (Suc c) rest
                     (cell_map(wid \<mapsto> (Some (int r, int c), snd entry))))
           else scan_row r (Suc c) rest
                  (cell_map(wid \<mapsto> (fst entry, snd entry @ [(int r, int c)]))))"

fun scan_grid :: "nat \<Rightarrow> string list \<Rightarrow> (string \<rightharpoonup> entry) \<Rightarrow> error + (string \<rightharpoonup> entry)" where
  "scan_grid r [] cell_map = Inr cell_map"
| "scan_grid r (row_str # grid_strs) cell_map =
     (case scan_row r 0 row_str cell_map of
        Inl e \<Rightarrow> Inl e
      | Inr cell_map' \<Rightarrow> scan_grid (Suc r) grid_strs cell_map')"

fun sort_keys :: "direction \<Rightarrow> cell \<Rightarrow> int" where
  "sort_keys Right p = snd p"
| "sort_keys Left p = - snd p"
| "sort_keys Down p = fst p"
| "sort_keys Up p = - fst p"

fun leading_violation :: "string \<Rightarrow> cell \<Rightarrow> cell \<Rightarrow> bool" where
  "leading_violation dir (head_r, head_c) (br, bc) \<longleftrightarrow>
     dir = ''left'' \<and> bc < head_c \<or> dir = ''right'' \<and> bc > head_c \<or>
     dir = ''up'' \<and> br < head_r \<or> dir = ''down'' \<and> br > head_r"

definition build_worm :: "(string \<rightharpoonup> entry) \<Rightarrow> string \<Rightarrow> worm_meta \<Rightarrow> error + Worm" where
  "build_worm cell_map wid meta =
     (case cell_map wid of
        None \<Rightarrow> Inl (NotOnGrid wid)
      | Some info \<Rightarrow>
          (case fst info of
             None \<Rightarrow> Inl (NoHead wid)
           | Some h \<Rightarrow>
               (case find (leading_violation (meta_direction meta) h) (snd info) of
                  Some b \<Rightarrow> Inl (HeadNotLeading wid h b)
                | None \<Rightarrow>
                    (case direction_of_name (meta_direction meta) of
                       None \<Rightarrow> Inl (KeyError (meta_direction meta))
                     | Some d \<Rightarrow>
                         Inr \<lparr>worm_id = wid,
                              segments = sort_key (sort_keys d) (snd info @ [h]),
                              direction = d,
                              color = (case meta_color meta of
                                         None \<Rightarrow> ''white'' | Some c \<Rightarrow> c)\<rparr>))))"

fun build_worms :: "(string \<rightharpoonup> entry) \<Rightarrow> (string \<times> worm_meta) list \<Rightarrow> error + Worm list" where
  "build_worms cell_map [] = Inr []"
| "build_worms cell_map ((wid, meta) # rest) =
     (case build_worm cell_map wid meta of
        Inl e \<Rightarrow> Inl e
      | Inr w \<Rightarrow>
          (case build_worms cell_map rest of
             Inl e \<Rightarrow> Inl e
           | Inr ws \<Rightarrow> Inr (w # ws)))"

definition load_level :: "level_data \<Rightarrow> error + (int \<times> int \<times> string \<times> Worm list)" where
  "load_level ld =
     (case scan_grid 0 (ld_grid ld) Map.empty of
        Inl e \<Rightarrow> Inl e
      | Inr cell_map \<Rightarrow>
          (case build_worms cell_map (ld_worms ld) of
             Inl e \<Rightarrow> Inl e
           | Inr worms \<Rightarrow>
               Inr (ld_rows ld, ld_cols ld,
                    (case ld_name ld of None \<Rightarrow> ''Unnamed Level'' | Some n \<Rightarrow> n),
                    worms)))"

text \<open>
  \<open>is_solvable\<close> returns the verdict and the report; \<open>solve\<close> is the same run with the
  extraction order and the round count still attached.
\<close>

definition solve :: "level_data \<Rightarrow> error + (bool \<times> string list \<times> string list \<times> nat)" where
  "solve ld =
     (case load_level ld of
        Inl e \<Rightarrow> Inl e
      | Inr (rows, cols, name, worms) \<Rightarrow> is_solvable_loop rows cols worms [] [] 0)"

definition is_solvable :: "level_data \<Rightarrow> error + (bool \<times> string list)" where
  "is_solvable ld =
     (case solve ld of
        Inl e \<Rightarrow> Inl e
      | Inr (solvable, report, extraction_order, round_num) \<Rightarrow> Inr (solvable, report))"

section \<open>generator.py\<close>

subsection \<open>Exit corridor\<close>

function exit_corridor_loop ::
  "direction \<Rightarrow> int \<Rightarrow> int \<Rightarrow> int \<Rightarrow> int \<Rightarrow> cell set \<Rightarrow> cell set" where
  "exit_corridor_loop d r c rows cols corridor =
     (if in_grid r c rows cols then
        exit_corridor_loop d (r + fst (DIR_DELTA d)) (c + snd (DIR_DELTA d)) rows cols
          (insert (r, c) corridor)
      else corridor)"
  by pat_completeness auto
termination
  by (relation "measure (\<lambda>(d, r, c, rows, cols, corridor).
        case d of Up \<Rightarrow> nat (r + 1) | Down \<Rightarrow> nat (rows - r)
                | Left \<Rightarrow> nat (c + 1) | Right \<Rightarrow> nat (cols - c))")
     (auto simp: in_grid_def split: direction.splits)

declare exit_corridor_loop.simps [simp del]

definition exit_corridor :: "int \<Rightarrow> int \<Rightarrow> direction \<Rightarrow> int \<Rightarrow> int \<Rightarrow> cell set" where
  "exit_corridor head_r head_c d rows cols =
     exit_corridor_loop d (head_r + fst (DIR_DELTA d)) (head_c + snd (DIR_DELTA d))
       rows cols {}"

subsection \<open>The random source\<close>

text \<open>
  The module \<open>random\<close> is a library.  Its state is modelled as the sequence of raw draws
  still to come (zeros once the list is used up); a bounded draw consumes one of them.
  \<open>shuffle\<close>, \<open>randint\<close> and \<open>choice\<close> are the library's algorithms over bounded draws:
  \<open>shuffle\<close> swaps position \<open>i\<close> with a drawn \<open>j \<le> i\<close> for \<open>i\<close> from the last index
  down to 1.  Seeding is a function from the seed to the state it installs.
\<close>

type_synonym rng = "nat list"

definition randbelow :: "nat \<Rightarrow> rng \<Rightarrow> nat \<times> rng" where
  "randbelow n g = (case g of [] \<Rightarrow> (0, []) | x # g' \<Rightarrow> (x mod n, g'))"

fun shuffle_loop :: "nat \<Rightarrow> 'a list \<Rightarrow> rng \<Rightarrow> 'a list \<times> rng" where
  "shuffle_loop 0 x g = (x, g)"
| "shuffle_loop (Suc i) x g =
     (case randbelow (Suc (Suc i)) g of
        (j, g') \<Rightarrow> shuffle_loop i (x[Suc i := x ! j, j := x ! Suc i]) g')"

definition shuffle :: "'a list \<Rightarrow> rng \<Rightarrow> 'a list \<times> rng" where
  "shuffle x g = shuffle_loop (length x - 1) x g"

definition randint :: "int \<Rightarrow> int \<Rightarrow> rng \<Rightarrow> error + (int \<times> rng)" where
  "randint a b g =
     (if b < a then Inl EmptyRange
      else case randbelow (nat (b - a + 1)) g of (k, g') \<Rightarrow> Inr (a + int k, g'))"

definition choice :: "'a list \<Rightarrow> rng \<Rightarrow> error + ('a \<times> rng)" where
  "choice seq g =
     (if seq = [] then Inl IndexError
      else case randbelow (length seq) g of (k, g') \<Rightarrow> Inr (seq ! k, g'))"

subsection \<open>Head placement\<close>

definition edge_candidates :: "int \<Rightarrow> int \<Rightarrow> (int \<times> int \<times> direction) list" where
  "edge_candidates rows cols =
     concat (map (\<lambda>c. [(0, c, Up), (rows - 1, c, Down)]) [0..cols - 1])
     @ concat (map (\<lambda>r. [(r, 0, Left), (r, cols - 1, Right)]) [0..rows - 1])"

fun try_depths ::
  "int \<Rightarrow> int \<Rightarrow> direction \<Rightarrow> int list \<Rightarrow> int \<Rightarrow> int \<Rightarrow> cell set
     \<Rightarrow> (int \<times> int \<times> direction \<times> cell set) option" where
  "try_depths edge_r edge_c d [] rows cols occupied = None"
| "try_depths edge_r edge_c d (depth # depths) rows cols occupied =
     (let hr = edge_r + depth * (- fst (DIR_DELTA d));
          hc = edge_c + depth * (- snd (DIR_DELTA d))
      in if \<not> in_grid hr hc rows cols then
           try_depths edge_r edge_c d depths rows cols occupied
         else if (hr, hc) \<in> occupied then
           try_depths edge_r edge_c d depths rows cols occupied
         else if exit_corridor hr hc d rows cols \<inter> occupied \<noteq> {} then
           try_depths edge_r edge_c d depths rows cols occupied
         else Some (hr, hc, d, exit_corridor hr hc d rows cols))"

fun try_edges ::
  "(int \<times> int \<times> direction) list \<Rightarrow> int \<Rightarrow> int \<Rightarrow> int \<Rightarrow> int \<Rightarrow> cell set \<Rightarrow> rng
     \<Rightarrow> (int \<times> int \<times> direction \<times> cell set) option \<times> rng" where
  "try_edges [] min_depth max_depth rows cols occupied g = (None, g)"
| "try_edges ((edge_r, edge_c, d) # edges) min_depth max_depth rows cols occupied g =
     (case shuffle [min_depth..max_depth] g of
        (depths, g') \<Rightarrow>
          (case try_depths edge_r edge_c d depths rows cols occupied of
             Some res \<Rightarrow> (Some res, g')
           | None \<Rightarrow> try_edges edges min_depth max_depth rows cols occupied g'))"

definition pick_head ::
  "int \<Rightarrow> int \<Rightarrow> cell set \<Rightarrow> int \<Rightarrow> int option \<Rightarrow> rng
     \<Rightarrow> (int \<times> int \<times> direction \<times> cell set) option \<times> rng" where
  "pick_head rows cols occupied min_depth max_depth g =
     (case shuffle (edge_candidates rows cols) g of
        (edges, g') \<Rightarrow>
          try_edges edges min_depth
            (case max_depth of None \<Rightarrow> max rows cols - 2 | Some m \<Rightarrow> m)
            rows cols occupied g')"

subsection \<open>Body growth\<close>

text \<open>The closure \<open>_valid\<close> of \<open>_grow_body\<close>, with the variables it captures as arguments.\<close>

definition valid_cell :: "direction \<Rightarrow> int \<Rightarrow> int \<Rightarrow> int \<Rightarrow> int \<Rightarrow> bool" where
  "valid_cell d head_r head_c r c =
     (if d = Right \<and> c > head_c then False
      else if d = Left \<and> c < head_c then False
      else if d = Down \<and> r > head_r then False
      else if d = Up \<and> r < head_r then False
      else True)"

definition ALL_DIRS :: "(int \<times> int) list" where
  "ALL_DIRS = [(0, 1), (0, -1), (1, 0), (-1, 0)]"

definition walk_candidates ::
  "direction \<Rightarrow> int \<Rightarrow> int \<Rightarrow> int \<Rightarrow> int \<Rightarrow> cell set \<Rightarrow> cell \<Rightarrow> cell list" where
  "walk_candidates d head_r head_c rows cols taken cur =
     filter (\<lambda>(nr, nc). in_grid nr nc rows cols \<and> (nr, nc) \<notin> taken
                          \<and> valid_cell d head_r head_c nr nc)
       (map (\<lambda>(dr, dc). (fst cur + dr, snd cur + dc)) ALL_DIRS)"

definition weighted_candidates :: "cell set \<Rightarrow> cell list \<Rightarrow> cell list" where
  "weighted_candidates target_cells candidates =
     concat (map (\<lambda>pos. replicate (if pos \<in> target_cells then 5 else 1) pos) candidates)"

fun grow_loop ::
  "nat \<Rightarrow> direction \<Rightarrow> int \<Rightarrow> int \<Rightarrow> cell set \<Rightarrow> int \<Rightarrow> int \<Rightarrow> cell list \<Rightarrow> cell set \<Rightarrow> cell
     \<Rightarrow> rng \<Rightarrow> error + (cell list \<times> rng)" where
  "grow_loop 0 d head_r head_c target_cells rows cols body taken cur g = Inr (body, g)"
| "grow_loop (Suc n) d head_r head_c target_cells rows cols body taken cur g =
     (if walk_candidates d head_r head_c rows cols taken cur = [] then Inr (body, g)
      else
        (case choice (weighted_candidates target_cells
                        (walk_candidates d head_r head_c rows cols taken cur)) g of
           Inl e \<Rightarrow> Inl e
         | Inr (pos, g') \<Rightarrow>
             grow_loop n d head_r head_c target_cells rows cols
               (body @ [pos]) (insert pos taken) pos g'))"

definition grow_body ::
  "int \<Rightarrow> int \<Rightarrow> direction \<Rightarrow> cell set \<Rightarrow> cell set \<Rightarrow> int \<Rightarrow> int \<Rightarrow> int \<Rightarrow> int \<Rightarrow> rng
     \<Rightarrow> error + (cell list option \<times> rng)" where
  "grow_body head_r head_c d occupied target_cells min_segs max_segs rows cols g =
     (case randint min_segs max_segs g of
        Inl e \<Rightarrow> Inl e
      | Inr (num_segs, g') \<Rightarrow>
          if num_segs = 0 then Inr (Some [], g')
          else
            (case grow_loop (nat num_segs) d head_r head_c target_cells rows cols []
                    (occupied \<union> {(head_r, head_c)}) (head_r, head_c) g' of
               Inl e \<Rightarrow> Inl e
             | Inr (body, g'') \<Rightarrow>
                 if int (length body) < min_segs then Inr (None, g'')
                 else Inr (Some (rev body), g'')))"

subsection \<open>Level generation\<close>

definition COLOR_CYCLE :: "string list" where
  "COLOR_CYCLE = [''red'', ''blue'', ''green'', ''yellow'', ''magenta'', ''cyan'', ''white'']"

text \<open>A placement record, one per placed worm.\<close>

record placement =
  p_worm_id :: string
  p_head :: cell
  p_direction :: direction
  p_body :: "cell list"
  p_color :: string
  p_segments :: "cell list"

record gen_state =
  occupied :: "cell set"
  worms_placed :: "placement list"
  corridors :: "cell set list"

text \<open>The loop \<open>for _attempt in range(300)\<close>, on its remaining number of attempts.\<close>

fun place_attempts ::
  "nat \<Rightarrow> int \<Rightarrow> int \<Rightarrow> cell set \<Rightarrow> cell set \<Rightarrow> int \<Rightarrow> int \<Rightarrow> int \<Rightarrow> rng
     \<Rightarrow> error + ((int \<times> int \<times> direction \<times> cell set \<times> cell list) option \<times> rng)" where
  "place_attempts 0 rows cols occ target_cells max_depth min_body max_body g = Inr (None, g)"
| "place_attempts (Suc n) rows cols occ target_cells max_depth min_body max_body g =
     (case pick_head rows cols occ 1 (Some max_depth) g of
        (None, g') \<Rightarrow> Inr (None, g')
      | (Some (hr, hc, d, corridor), g') \<Rightarrow>
          (case grow_body hr hc d occ target_cells min_body max_body rows cols g' of
             Inl e \<Rightarrow> Inl e
           | Inr (None, g'') \<Rightarrow>
               place_attempts n rows cols occ target_cells max_depth min_body max_body g''
           | Inr (Some body, g'') \<Rightarrow> Inr (Some (hr, hc, d, corridor, body), g'')))"

definition target_cells_of :: "gen_state \<Rightarrow> cell set" where
  "target_cells_of st = fold (\<lambda>corr t. t \<union> corr) (corridors st) {} - occupied st"

definition max_depth_of :: "nat \<Rightarrow> int \<Rightarrow> int \<Rightarrow> int" where
  "max_depth_of i rows cols = (if i > 0 then max rows cols div 2 + 1 else max rows cols - 2)"

definition record_worm ::
  "nat \<Rightarrow> int \<times> int \<times> direction \<times> cell set \<times> cell list \<Rightarrow> gen_state \<Rightarrow> gen_state" where
  "record_worm i res st =
     (case res of (hr, hc, d, corridor, body) \<Rightarrow>
        \<lparr>occupied = occupied st \<union> set (body @ [(hr, hc)]),
         worms_placed = worms_placed st @
           [\<lparr>p_worm_id = [char_of (65 + i)], p_head = (hr, hc), p_direction = d,
             p_body = body, p_color = COLOR_CYCLE ! (i mod length COLOR_CYCLE),
             p_segments = body @ [(hr, hc)]\<rparr>],
         corridors = corridors st @ [corridor]\<rparr>)"

text \<open>
  The loop \<open>for i in range(num_worms)\<close>: \<open>k\<close> worms are still to place, \<open>i\<close> is the index
  of the next.  \<open>None\<close> is the early return when the first worm cannot be placed; at a
  later worm the loop breaks and keeps the state.
\<close>

fun place_worms ::
  "nat \<Rightarrow> nat \<Rightarrow> int \<Rightarrow> int \<Rightarrow> int \<Rightarrow> int \<Rightarrow> gen_state \<Rightarrow> rng
     \<Rightarrow> error + (gen_state option \<times> rng)" where
  "place_worms 0 i rows cols min_body max_body st g = Inr (Some st, g)"
| "place_worms (Suc k) i rows cols min_body max_body st g =
     (case place_attempts 300 rows cols (occupied st) (target_cells_of st)
             (max_depth_of i rows cols) min_body max_body g of
        Inl e \<Rightarrow> Inl e
      | Inr (None, g') \<Rightarrow> if i = 0 then Inr (None, g') else Inr (Some st, g')
      | Inr (Some res, g') \<Rightarrow>
          place_worms k (Suc i) rows cols min_body max_body (record_worm i res st) g')"

subsection \<open>Building the level dictionary\<close>

text \<open>
  The grid under construction is a list of rows of one-character strings.  An index
  follows Python: a negative one counts from the end, one out of range is an
  \<open>IndexError\<close>.
\<close>

definition py_index :: "nat \<Rightarrow> int \<Rightarrow> nat option" where
  "py_index n i =
     (if 0 \<le> i \<and> i < int n then Some (nat i)
      else if - int n \<le> i \<and> i < 0 then Some (nat (i + int n))
      else None)"

definition set_cell :: "string list list \<Rightarrow> cell \<Rightarrow> string \<Rightarrow> error + string list list" where
  "set_cell grid p v =
     (case py_index (length grid) (fst p) of
        None \<Rightarrow> Inl IndexError
      | Some i \<Rightarrow>
          (case py_index (length (grid ! i)) (snd p) of
             None \<Rightarrow> Inl IndexError
           | Some j \<Rightarrow> Inr (grid[i := (grid ! i)[j := v]])))"

fun set_cells :: "string list list \<Rightarrow> cell list \<Rightarrow> string \<Rightarrow> error + string list list" where
  "set_cells grid [] v = Inr grid"
| "set_cells grid (p # ps) v =
     (case set_cell grid p v of Inl e \<Rightarrow> Inl e | Inr grid' \<Rightarrow> set_cells grid' ps v)"

fun draw_worms ::
  "placement list \<Rightarrow> string list list \<Rightarrow> (string \<times> worm_meta) list
     \<Rightarrow> error + (string list list \<times> (string \<times> worm_meta) list)" where
  "draw_worms [] grid worms_meta = Inr (grid, worms_meta)"
| "draw_worms (wd # wds) grid worms_meta =
     (case set_cell grid (p_head wd) (map upper_char (p_worm_id wd)) of
        Inl e \<Rightarrow> Inl e
      | Inr grid' \<Rightarrow>
          (case set_cells grid' (p_body wd) (map lower_char (p_worm_id wd)) of
             Inl e \<Rightarrow> Inl e
           | Inr grid'' \<Rightarrow>
               draw_worms wds grid''
                 (AList.update (p_worm_id wd)
                    \<lparr>meta_color = Some (p_color wd),
                     meta_direction = direction_name (p_direction wd)\<rparr>
                    worms_meta)))"

definition show_int :: "int \<Rightarrow> string" where
  "show_int i = (if i < 0 then ''-'' @ show_nat (nat (- i)) else show_nat (nat i))"

definition first_worm_failed :: string where
  "first_worm_failed =
     ''Failed to place even the first worm '' @ em_dash
       @ '' grid too small for the requested worm length.''"

definition build_level ::
  "int \<Rightarrow> int \<Rightarrow> int \<Rightarrow> placement list
     \<Rightarrow> error + (level_data option \<times> string list \<times> string)" where
  "build_level rows cols num_worms placed =
     (if placed = [] then Inr (None, [], ''No worms could be placed.'')
      else
        (case draw_worms placed (replicate (nat rows) (replicate (nat cols) ''.'')) [] of
           Inl e \<Rightarrow> Inl e
         | Inr (grid, worms_meta) \<Rightarrow>
             Inr (Some \<lparr>ld_name = Some (''Generated '' @ show_int rows @ ''x'' @ show_int cols
                                          @ '' ('' @ show_nat (length placed) @ '' worms)''),
                        ld_rows = rows, ld_cols = cols,
                        ld_grid = map concat grid,
                        ld_worms = worms_meta\<rparr>,
                  map p_worm_id placed,
                  if int (length placed) < num_worms then
                    ''Placed '' @ show_nat (length placed) @ '' of '' @ show_int num_worms
                      @ '' worms (grid too crowded for more).''
                  else ''OK'')))"

text \<open>
  \<open>generate_level\<close>.  \<open>seed_state\<close> is the state \<open>random.seed\<close> installs for a seed, \<open>g\<close> the
  state of the process-wide generator when the call starts; the result carries the state
  the call leaves behind.
\<close>

definition generate_level ::
  "(int \<Rightarrow> rng) \<Rightarrow> rng \<Rightarrow> int \<Rightarrow> int \<Rightarrow> int \<Rightarrow> int \<Rightarrow> int \<Rightarrow> int option
     \<Rightarrow> error + ((level_data option \<times> string list \<times> string) \<times> rng)" where
  "generate_level seed_state g rows cols num_worms min_len max_len seed =
     (case place_worms (nat num_worms) 0 rows cols (max (min_len - 1) 0) (max_len - 1)
             \<lparr>occupied = {}, worms_placed = [], corridors = []\<rparr>
             (case seed of None \<Rightarrow> g | Some s \<Rightarrow> seed_state s) of
        Inl e \<Rightarrow> Inl e
      | Inr (None, g') \<Rightarrow> Inr ((None, [], first_worm_failed), g')
      | Inr (Some st, g') \<Rightarrow>
          (case build_level rows cols num_worms (worms_placed st) of
             Inl e \<Rightarrow> Inl e
           | Inr res \<Rightarrow> Inr (res, g')))"

section \<open>The concrete scenario\<close>

text \<open>levels/level\_01.py, the layout of the concrete scenario.\<close>

definition LEVEL_01 :: level_data where
  "LEVEL_01 =
     \<lparr>ld_name = Some (''Level 1 '' @ em_dash @ '' First Steps''), ld_rows = 6, ld_cols = 6,
      ld_grid = [''......'', ''...Cc.'', ''...B..'', ''aaAb..'', ''...b..'', ''......''],
      ld_worms =
        [(''A'', \<lparr>meta_color = Some ''red'', meta_direction = ''right''\<rparr>),
         (''B'', \<lparr>meta_color = Some ''blue'', meta_direction = ''up''\<rparr>),
         (''C'', \<lparr>meta_color = Some ''green'', meta_direction = ''left''\<rparr>)]\<rparr>"

definition worm_A :: Worm where
  "worm_A = \<lparr>worm_id = ''A'', segments = [(3, 0), (3, 1), (3, 2)],
              direction = Right, color = ''red''\<rparr>"

definition worm_B :: Worm where
  "worm_B = \<lparr>worm_id = ''B'', segments = [(4, 3), (3, 3), (2, 3)],
              direction = Up, color = ''blue''\<rparr>"

definition worm_C :: Worm where
  "worm_C = \<lparr>worm_id = ''C'', segments = [(1, 4), (1, 3)],
              direction = Left, color = ''green''\<rparr>"

definition free_in_round :: "Worm list \<Rightarrow> int \<Rightarrow> int \<Rightarrow> error + string list" where
  "free_in_round worms rows cols =
     (case build_dependency_graph worms rows cols of
        Inl e \<Rightarrow> Inl e
      | Inr g \<Rightarrow> Inr (free_of g))"

text \<open>
  C3.  The 6x6 layout of level 1 parses to worm A (right, head (3,2), body (3,0), (3,1)),
  worm B (up, head (2,3), body (3,3), (4,3)) and worm C (left, head (1,3), body (1,4)).
  On it \<open>is_solvable\<close> returns solvable with the nine report lines below: round 1
  frees exactly C, round 2 exactly B, round 3 exactly A, and the extraction order is
  C, B, A, in three rounds.
\<close>

theorem level_01_scenario:
  "load_level LEVEL_01
     = Inr (6, 6, ''Level 1 '' @ em_dash @ '' First Steps'', [worm_A, worm_B, worm_C])
   \<and> head worm_A = Inr (3, 2) \<and> head worm_B = Inr (2, 3) \<and> head worm_C = Inr (1, 3)
   \<and> free_in_round [worm_A, worm_B, worm_C] 6 6 = Inr [''C'']
   \<and> free_in_round [worm_A, worm_B] 6 6 = Inr [''B'']
   \<and> free_in_round [worm_A] 6 6 = Inr [''A'']
   \<and> solve LEVEL_01
        = Inr (True,
               [''Round 1: extract [C]'', ''  [A] still blocked by: B'',
                ''  [B] still blocked by: C'', ''Round 2: extract [B]'',
                ''  [A] still blocked by: B'', ''Round 3: extract [A]'', [],
                ''Extraction order: C '' @ right_arrow @ '' B '' @ right_arrow
                  @ '' A  (3 rounds)'',
                ''Verdict: SOLVABLE''],
               [''C'', ''B'', ''A''], 3)
   \<and> is_solvable LEVEL_01
        = Inr (True,
               [''Round 1: extract [C]'', ''  [A] still blocked by: B'',
                ''  [B] still blocked by: C'', ''Round 2: extract [B]'',
                ''  [A] still blocked by: B'', ''Round 3: extract [A]'', [],
                ''Extraction order: C '' @ right_arrow @ '' B '' @ right_arrow
                  @ '' A  (3 rounds)'',
                ''Verdict: SOLVABLE''])"
proof -
  have l: "load_level LEVEL_01
     = Inr (6, 6, ''Level 1 '' @ em_dash @ '' First Steps'', [worm_A, worm_B, worm_C])"
    by code_simp
  have h: "head worm_A = Inr (3, 2) \<and> head worm_B = Inr (2, 3) \<and> head worm_C = Inr (1, 3)"
    by code_simp
  have r1: "free_in_round [worm_A, worm_B, worm_C] 6 6 = Inr [''C'']" by code_simp
  have r2: "free_in_round [worm_A, worm_B] 6 6 = Inr [''B'']" by code_simp
  have r3: "free_in_round [worm_A] 6 6 = Inr [''A'']" by code_simp
  have s: "solve LEVEL_01
        = Inr (True,
               [''Round 1: extract [C]'', ''  [A] still blocked by: B'',
                ''  [B] still blocked by: C'', ''Round 2: extract [B]'',
                ''  [A] still blocked by: B'', ''Round 3: extract [A]'', [],
                ''Extraction order: C '' @ right_arrow @ '' B '' @ right_arrow
                  @ '' A  (3 rounds)'',
                ''Verdict: SOLVABLE''],
               [''C'', ''B'', ''A''], 3)"
    by code_simp
  have i: "is_solvable LEVEL_01
        = Inr (True,
               [''Round 1: extract [C]'', ''  [A] still blocked by: B'',
                ''  [B] still blocked by: C'', ''Round 2: extract [B]'',
                ''  [A] still blocked by: B'', ''Round 3: extract [A]'', [],
                ''Extraction order: C '' @ right_arrow @ '' B '' @ right_arrow
                  @ '' A  (3 rounds)'',
                ''Verdict: SOLVABLE''])"
    by code_simp
  from l h r1 r2 r3 s i show ?thesis by blast
qed

section \<open>What the scan of the grid collects\<close>

text \<open>
  The cells of the text grid in scan order, each with its character, and for an id the
  positions of its head characters and of its body characters.
\<close>

fun row_cells :: "nat \<Rightarrow> nat \<Rightarrow> string \<Rightarrow> (cell \<times> char) list" where
  "row_cells r c [] = []"
| "row_cells r c (ch # rest) = ((int r, int c), ch) # row_cells r (Suc c) rest"

fun grid_cells :: "nat \<Rightarrow> string list \<Rightarrow> (cell \<times> char) list" where
  "grid_cells r [] = []"
| "grid_cells r (row_str # grid_strs) = row_cells r 0 row_str @ grid_cells (Suc r) grid_strs"

definition is_head_of :: "string \<Rightarrow> cell \<times> char \<Rightarrow> bool" where
  "is_head_of wid x \<longleftrightarrow> is_upper (snd x) \<and> [upper_char (snd x)] = wid"

definition is_body_of :: "string \<Rightarrow> cell \<times> char \<Rightarrow> bool" where
  "is_body_of wid x \<longleftrightarrow>
     snd x \<noteq> CHR ''.'' \<and> snd x \<noteq> CHR '' '' \<and> \<not> is_upper (snd x) \<and> [upper_char (snd x)] = wid"

definition heads_of :: "(cell \<times> char) list \<Rightarrow> string \<Rightarrow> cell list" where
  "heads_of cells wid = map fst (filter (is_head_of wid) cells)"

definition bodies_of :: "(cell \<times> char) list \<Rightarrow> string \<Rightarrow> cell list" where
  "bodies_of cells wid = map fst (filter (is_body_of wid) cells)"

definition head_cells :: "level_data \<Rightarrow> string \<Rightarrow> cell list" where
  "head_cells ld wid = heads_of (grid_cells 0 (ld_grid ld)) wid"

definition body_cells :: "level_data \<Rightarrow> string \<Rightarrow> cell list" where
  "body_cells ld wid = bodies_of (grid_cells 0 (ld_grid ld)) wid"

definition on_grid :: "level_data \<Rightarrow> string \<Rightarrow> bool" where
  "on_grid ld wid \<longleftrightarrow> head_cells ld wid \<noteq> [] \<or> body_cells ld wid \<noteq> []"

text \<open>The scan, cell by cell, and the \<open>cell_map\<close> it has built after a list of cells.\<close>

definition scan_cell :: "cell \<times> char \<Rightarrow> (string \<rightharpoonup> entry) \<Rightarrow> error + (string \<rightharpoonup> entry)" where
  "scan_cell x cell_map =
     (if snd x = CHR ''.'' \<or> snd x = CHR '' '' then Inr cell_map
      else
        let wid = [upper_char (snd x)];
            entry = (case cell_map wid of None \<Rightarrow> (None, []) | Some e \<Rightarrow> e)
        in if is_upper (snd x) then
             (if fst entry \<noteq> None then Inl (MultipleHeads wid)
              else Inr (cell_map(wid \<mapsto> (Some (fst x), snd entry))))
           else Inr (cell_map(wid \<mapsto> (fst entry, snd entry @ [fst x]))))"

fun scan_cells :: "(cell \<times> char) list \<Rightarrow> (string \<rightharpoonup> entry) \<Rightarrow> error + (string \<rightharpoonup> entry)" where
  "scan_cells [] cell_map = Inr cell_map"
| "scan_cells (x # xs) cell_map =
     (case scan_cell x cell_map of Inl e \<Rightarrow> Inl e | Inr cell_map' \<Rightarrow> scan_cells xs cell_map')"

definition summary :: "(cell \<times> char) list \<Rightarrow> string \<rightharpoonup> entry" where
  "summary cells wid =
     (if heads_of cells wid = [] \<and> bodies_of cells wid = [] then None
      else Some (case heads_of cells wid of [] \<Rightarrow> None | h # _ \<Rightarrow> Some h,
                 bodies_of cells wid))"

definition single_heads :: "(cell \<times> char) list \<Rightarrow> bool" where
  "single_heads cells \<longleftrightarrow> (\<forall>wid. length (heads_of cells wid) \<le> 1)"

lemma scan_row_cells: "scan_row r c row cm = scan_cells (row_cells r c row) cm"
  by (induction row arbitrary: c cm) (auto simp: scan_cell_def Let_def)

lemma scan_cells_append:
  "scan_cells (xs @ ys) cm =
     (case scan_cells xs cm of Inl e \<Rightarrow> Inl e | Inr cm' \<Rightarrow> scan_cells ys cm')"
  by (induction xs arbitrary: cm) (auto split: sum.splits)

lemma scan_grid_cells: "scan_grid r g cm = scan_cells (grid_cells r g) cm"
  by (induction g arbitrary: r cm)
     (auto simp: scan_row_cells scan_cells_append split: sum.splits)

lemma heads_of_snoc:
  "heads_of (cells @ [x]) wid
     = heads_of cells wid @ (if is_head_of wid x then [fst x] else [])"
  by (simp add: heads_of_def)

lemma bodies_of_snoc:
  "bodies_of (cells @ [x]) wid
     = bodies_of cells wid @ (if is_body_of wid x then [fst x] else [])"
  by (simp add: bodies_of_def)

lemma single_heads_prefix: "single_heads (xs @ ys) \<Longrightarrow> single_heads xs"
  unfolding single_heads_def heads_of_def
  by (metis (no_types, lifting) filter_append le_add1 le_trans length_append length_map)

lemma scan_cell_ok:
  assumes "single_heads (cells @ [x])"
  shows "scan_cell x (summary cells) = Inr (summary (cells @ [x]))"
proof (cases "snd x = CHR ''.'' \<or> snd x = CHR '' ''")
  case True
  then have "\<And>wid. \<not> is_head_of wid x" "\<And>wid. \<not> is_body_of wid x"
    by (auto simp: is_head_of_def is_body_of_def is_upper_def)
  then have "summary (cells @ [x]) = summary cells"
    by (intro ext) (simp add: summary_def heads_of_snoc bodies_of_snoc)
  with True show ?thesis by (simp add: scan_cell_def)
next
  case False
  let ?w = "[upper_char (snd x)]"
  show ?thesis
  proof (cases "is_upper (snd x)")
    case True
    then have hd: "\<And>wid. is_head_of wid x \<longleftrightarrow> wid = ?w"
      and bd: "\<And>wid. \<not> is_body_of wid x"
      by (auto simp: is_head_of_def is_body_of_def)
    from assms have "length (heads_of (cells @ [x]) ?w) \<le> 1"
      by (simp add: single_heads_def)
    then have none: "heads_of cells ?w = []"
      by (simp add: heads_of_snoc hd)
    then have f: "fst (case summary cells ?w of None \<Rightarrow> (None, []) | Some e \<Rightarrow> e) = None"
      by (simp add: summary_def)
    have s: "snd (case summary cells ?w of None \<Rightarrow> (None, []) | Some e \<Rightarrow> e)
               = bodies_of cells ?w"
      by (simp add: summary_def)
    have "(summary cells)(?w \<mapsto> (Some (fst x), bodies_of cells ?w)) = summary (cells @ [x])"
      by (intro ext) (auto simp: summary_def heads_of_snoc bodies_of_snoc hd bd none
                          split: list.splits)
    with False True f s show ?thesis by (simp add: scan_cell_def Let_def)
  next
    case up: False
    with False have hd: "\<And>wid. \<not> is_head_of wid x"
      and bd: "\<And>wid. is_body_of wid x \<longleftrightarrow> wid = ?w"
      by (auto simp: is_head_of_def is_body_of_def)
    have f: "fst (case summary cells ?w of None \<Rightarrow> (None, []) | Some e \<Rightarrow> e)
               = (case heads_of cells ?w of [] \<Rightarrow> None | h # _ \<Rightarrow> Some h)"
      by (simp add: summary_def)
    have s: "snd (case summary cells ?w of None \<Rightarrow> (None, []) | Some e \<Rightarrow> e)
               = bodies_of cells ?w"
      by (simp add: summary_def)
    have "(summary cells)(?w \<mapsto> (case heads_of cells ?w of [] \<Rightarrow> None | h # _ \<Rightarrow> Some h,
                                   bodies_of cells ?w @ [fst x]))
            = summary (cells @ [x])"
      by (intro ext) (auto simp: summary_def heads_of_snoc bodies_of_snoc hd bd
                          split: list.splits)
    with False up f s show ?thesis by (simp add: scan_cell_def Let_def)
  qed
qed

lemma scan_cell_second_head:
  assumes "single_heads cells" and "\<not> single_heads (cells @ [x])"
  shows "\<exists>e. scan_cell x (summary cells) = Inl e"
proof -
  from assms obtain wid where w: "length (heads_of cells wid) \<le> 1"
    "\<not> length (heads_of (cells @ [x]) wid) \<le> 1"
    by (auto simp: single_heads_def)
  then have h: "is_head_of wid x" and l: "length (heads_of cells wid) = 1"
    by (cases "heads_of cells wid"; auto simp: heads_of_snoc split: if_splits)+
  from h have u: "is_upper (snd x)" and e: "[upper_char (snd x)] = wid"
    and nd: "\<not> (snd x = CHR ''.'' \<or> snd x = CHR '' '')"
    by (auto simp: is_head_of_def is_upper_def)
  from l obtain p where "heads_of cells wid = [p]"
    by (cases "heads_of cells wid") auto
  then have "fst (case summary cells wid of None \<Rightarrow> (None, []) | Some e \<Rightarrow> e) = Some p"
    by (simp add: summary_def)
  with u e nd show ?thesis by (simp add: scan_cell_def Let_def)
qed

lemma scan_cells_ok:
  "single_heads (cells @ xs) \<Longrightarrow>
   scan_cells xs (summary cells) = Inr (summary (cells @ xs))"
proof (induction xs arbitrary: cells)
  case Nil
  show ?case by simp
next
  case (Cons x xs)
  from Cons.prems have a: "single_heads ((cells @ [x]) @ xs)" by simp
  then have "single_heads (cells @ [x])" by (rule single_heads_prefix)
  then have "scan_cell x (summary cells) = Inr (summary (cells @ [x]))"
    by (rule scan_cell_ok)
  with Cons.IH [OF a] show ?case by simp
qed

lemma scan_cells_reject:
  "single_heads cells \<Longrightarrow> \<not> single_heads (cells @ xs) \<Longrightarrow>
   \<exists>e. scan_cells xs (summary cells) = Inl e"
proof (induction xs arbitrary: cells)
  case Nil
  then show ?case by simp
next
  case (Cons x xs)
  show ?case
  proof (cases "single_heads (cells @ [x])")
    case True
    from Cons.prems(2) have "\<not> single_heads ((cells @ [x]) @ xs)" by simp
    from Cons.IH [OF True this] scan_cell_ok [OF True] show ?thesis by simp
  next
    case False
    from scan_cell_second_head [OF Cons.prems(1) False] show ?thesis by auto
  qed
qed

lemma summary_Nil: "summary [] = Map.empty"
  by (intro ext) (simp add: summary_def heads_of_def bodies_of_def)

lemma scan_grid_summary:
  "scan_grid 0 g Map.empty =
     (if single_heads (grid_cells 0 g) then Inr (summary (grid_cells 0 g))
      else Inl (projl (scan_grid 0 g Map.empty)))"
proof (cases "single_heads (grid_cells 0 g)")
  case True
  with scan_cells_ok [of "[]" "grid_cells 0 g"] show ?thesis
    by (simp add: scan_grid_cells summary_Nil)
next
  case False
  have "single_heads []" by (simp add: single_heads_def heads_of_def)
  from scan_cells_reject [OF this, of "grid_cells 0 g"] False
  obtain e where "scan_cells (grid_cells 0 g) Map.empty = Inl e"
    by (auto simp: summary_Nil)
  with False show ?thesis by (simp add: scan_grid_cells)
qed

lemma level_01_loads:
  "load_level LEVEL_01
     = Inr (6, 6, ''Level 1 '' @ em_dash @ '' First Steps'', [worm_A, worm_B, worm_C])"
  by code_simp

section \<open>The exit corridor\<close>

text \<open>
  The specification's corridor: the cells of the grid strictly ahead of a position along a
  direction.  \<open>depth\<close> is the distance of a position from the edge it faces.
\<close>

fun strictly_ahead :: "direction \<Rightarrow> cell \<Rightarrow> cell \<Rightarrow> bool" where
  "strictly_ahead Up (r, c) (r', c') \<longleftrightarrow> c' = c \<and> r' < r"
| "strictly_ahead Down (r, c) (r', c') \<longleftrightarrow> c' = c \<and> r < r'"
| "strictly_ahead Left (r, c) (r', c') \<longleftrightarrow> r' = r \<and> c' < c"
| "strictly_ahead Right (r, c) (r', c') \<longleftrightarrow> r' = r \<and> c < c'"

definition cells_ahead :: "direction \<Rightarrow> int \<Rightarrow> int \<Rightarrow> int \<Rightarrow> int \<Rightarrow> cell set" where
  "cells_ahead d r c rows cols =
     {p. in_grid (fst p) (snd p) rows cols \<and> strictly_ahead d (r, c) p}"

fun depth :: "direction \<Rightarrow> int \<Rightarrow> int \<Rightarrow> int \<Rightarrow> int \<Rightarrow> int" where
  "depth Up r c rows cols = r"
| "depth Down r c rows cols = rows - 1 - r"
| "depth Left r c rows cols = c"
| "depth Right r c rows cols = cols - 1 - c"

text \<open>The loop adds the cells from its current position on.\<close>

lemma exit_corridor_loop_Up:
  "0 \<le> c \<Longrightarrow> c < cols \<Longrightarrow> r < rows \<Longrightarrow>
   exit_corridor_loop Up r c rows cols acc = acc \<union> {(r', c) | r'. 0 \<le> r' \<and> r' \<le> r}"
proof (induction "nat (r + 1)" arbitrary: r acc)
  case 0
  then have "\<not> in_grid r c rows cols" by (simp add: in_grid_def)
  with 0 show ?case by (subst exit_corridor_loop.simps) auto
next
  case (Suc n)
  then have g: "in_grid r c rows cols" by (simp add: in_grid_def)
  have "exit_corridor_loop Up (r - 1) c rows cols (insert (r, c) acc)
          = insert (r, c) acc \<union> {(r', c) | r'. 0 \<le> r' \<and> r' \<le> r - 1}"
    using Suc by (intro Suc.hyps(1)) auto
  moreover have "insert (r, c) acc \<union> {(r', c) | r'. 0 \<le> r' \<and> r' \<le> r - 1}
                   = acc \<union> {(r', c) | r'. 0 \<le> r' \<and> r' \<le> r}"
    using Suc.hyps(2) by auto
  ultimately show ?case using g by (subst exit_corridor_loop.simps) simp
qed

lemma exit_corridor_loop_Down:
  "0 \<le> c \<Longrightarrow> c < cols \<Longrightarrow> 0 \<le> r \<Longrightarrow>
   exit_corridor_loop Down r c rows cols acc = acc \<union> {(r', c) | r'. r \<le> r' \<and> r' < rows}"
proof (induction "nat (rows - r)" arbitrary: r acc)
  case 0
  then have "\<not> in_grid r c rows cols" by (simp add: in_grid_def)
  with 0 show ?case by (subst exit_corridor_loop.simps) auto
next
  case (Suc n)
  then have g: "in_grid r c rows cols" by (simp add: in_grid_def)
  have "exit_corridor_loop Down (r + 1) c rows cols (insert (r, c) acc)
          = insert (r, c) acc \<union> {(r', c) | r'. r + 1 \<le> r' \<and> r' < rows}"
    using Suc by (intro Suc.hyps(1)) auto
  moreover have "insert (r, c) acc \<union> {(r', c) | r'. r + 1 \<le> r' \<and> r' < rows}
                   = acc \<union> {(r', c) | r'. r \<le> r' \<and> r' < rows}"
    using Suc.hyps(2) by auto
  ultimately show ?case using g by (subst exit_corridor_loop.simps) simp
qed

lemma exit_corridor_loop_Left:
  "0 \<le> r \<Longrightarrow> r < rows \<Longrightarrow> c < cols \<Longrightarrow>
   exit_corridor_loop Left r c rows cols acc = acc \<union> {(r, c') | c'. 0 \<le> c' \<and> c' \<le> c}"
proof (induction "nat (c + 1)" arbitrary: c acc)
  case 0
  then have "\<not> in_grid r c rows cols" by (simp add: in_grid_def)
  with 0 show ?case by (subst exit_corridor_loop.simps) auto
next
  case (Suc n)
  then have g: "in_grid r c rows cols" by (simp add: in_grid_def)
  have "exit_corridor_loop Left r (c - 1) rows cols (insert (r, c) acc)
          = insert (r, c) acc \<union> {(r, c') | c'. 0 \<le> c' \<and> c' \<le> c - 1}"
    using Suc by (intro Suc.hyps(1)) auto
  moreover have "insert (r, c) acc \<union> {(r, c') | c'. 0 \<le> c' \<and> c' \<le> c - 1}
                   = acc \<union> {(r, c') | c'. 0 \<le> c' \<and> c' \<le> c}"
    using Suc.hyps(2) by auto
  ultimately show ?case using g by (subst exit_corridor_loop.simps) simp
qed

lemma exit_corridor_loop_Right:
  "0 \<le> r \<Longrightarrow> r < rows \<Longrightarrow> 0 \<le> c \<Longrightarrow>
   exit_corridor_loop Right r c rows cols acc = acc \<union> {(r, c') | c'. c \<le> c' \<and> c' < cols}"
proof (induction "nat (cols - c)" arbitrary: c acc)
  case 0
  then have "\<not> in_grid r c rows cols" by (simp add: in_grid_def)
  with 0 show ?case by (subst exit_corridor_loop.simps) auto
next
  case (Suc n)
  then have g: "in_grid r c rows cols" by (simp add: in_grid_def)
  have "exit_corridor_loop Right r (c + 1) rows cols (insert (r, c) acc)
          = insert (r, c) acc \<union> {(r, c') | c'. c + 1 \<le> c' \<and> c' < cols}"
    using Suc by (intro Suc.hyps(1)) auto
  moreover have "insert (r, c) acc \<union> {(r, c') | c'. c + 1 \<le> c' \<and> c' < cols}
                   = acc \<union> {(r, c') | c'. c \<le> c' \<and> c' < cols}"
    using Suc.hyps(2) by auto
  ultimately show ?case using g by (subst exit_corridor_loop.simps) simp
qed

lemma exit_corridor_cells_ahead:
  assumes "in_grid r c rows cols"
  shows "exit_corridor r c d rows cols = cells_ahead d r c rows cols"
proof (cases d)
  case Up
  with assms show ?thesis
    by (auto simp: exit_corridor_def cells_ahead_def exit_corridor_loop_Up in_grid_def)
next
  case Down
  with assms show ?thesis
    by (auto simp: exit_corridor_def cells_ahead_def exit_corridor_loop_Down in_grid_def)
next
  case Left
  with assms show ?thesis
    by (auto simp: exit_corridor_def cells_ahead_def exit_corridor_loop_Left in_grid_def)
next
  case Right
  with assms show ?thesis
    by (auto simp: exit_corridor_def cells_ahead_def exit_corridor_loop_Right in_grid_def)
qed

lemma cells_ahead_interval:
  assumes "in_grid r c rows cols"
  shows "cells_ahead d r c rows cols =
           (case d of
              Up \<Rightarrow> (\<lambda>x. (x, c)) ` {0 ..< r}
            | Down \<Rightarrow> (\<lambda>x. (x, c)) ` {r + 1 ..< rows}
            | Left \<Rightarrow> (\<lambda>x. (r, x)) ` {0 ..< c}
            | Right \<Rightarrow> (\<lambda>x. (r, x)) ` {c + 1 ..< cols})"
  using assms by (cases d) (auto simp: cells_ahead_def in_grid_def image_iff)

lemma card_cells_ahead:
  assumes "in_grid r c rows cols"
  shows "card (cells_ahead d r c rows cols) = nat (depth d r c rows cols)"
proof -
  have l: "\<And>a b. card ((\<lambda>x::int. (x, c)) ` {a ..< b}) = nat (b - a)"
    by (subst card_image) (auto simp: inj_on_def)
  have r: "\<And>a b. card ((\<lambda>x::int. (r, x)) ` {a ..< b}) = nat (b - a)"
    by (subst card_image) (auto simp: inj_on_def)
  show ?thesis
    unfolding cells_ahead_interval [OF assms]
    by (cases d) (simp_all add: l r algebra_simps)
qed

lemma finite_cells_ahead:
  "in_grid r c rows cols \<Longrightarrow> finite (cells_ahead d r c rows cols)"
  by (cases d) (simp_all add: cells_ahead_interval)

lemma cells_ahead_depth_one:
  assumes "in_grid r c rows cols" and "depth d r c rows cols = 1"
  shows "cells_ahead d r c rows cols = {(r + fst (DIR_DELTA d), c + snd (DIR_DELTA d))}"
  unfolding cells_ahead_interval [OF assms(1)]
  using assms(2) by (cases d) (auto simp: image_iff)

text \<open>
  C6.  For a position inside the grid, \<open>_exit_corridor\<close> returns exactly the cells of the
  grid strictly ahead of it along the direction.  The corridor is empty if and only if the
  position is on the edge it faces (depth 0); it has as many cells as the depth, so one
  cell at depth 1.
\<close>

theorem exit_corridor_exact:
  assumes "in_grid r c rows cols"
  shows "exit_corridor r c d rows cols = cells_ahead d r c rows cols
         \<and> (exit_corridor r c d rows cols = {} \<longleftrightarrow> depth d r c rows cols = 0)
         \<and> card (exit_corridor r c d rows cols) = nat (depth d r c rows cols)
         \<and> (depth d r c rows cols = 1 \<longrightarrow>
              exit_corridor r c d rows cols
                = {(r + fst (DIR_DELTA d), c + snd (DIR_DELTA d))})"
proof -
  note eq = exit_corridor_cells_ahead [OF assms]
  have nonneg: "0 \<le> depth d r c rows cols"
    using assms by (cases d) (auto simp: in_grid_def)
  have c: "card (cells_ahead d r c rows cols) = nat (depth d r c rows cols)"
    by (rule card_cells_ahead [OF assms])
  have e: "cells_ahead d r c rows cols = {} \<longleftrightarrow> depth d r c rows cols = 0"
    using c finite_cells_ahead [OF assms, of d] nonneg by (auto simp: card_eq_0_iff)
  have one: "depth d r c rows cols = 1 \<Longrightarrow>
      cells_ahead d r c rows cols = {(r + fst (DIR_DELTA d), c + snd (DIR_DELTA d))}"
    by (rule cells_ahead_depth_one [OF assms])
  from eq c e one show ?thesis by simp
qed

theorem exit_corridor_exact_witness:
  "exit_corridor 3 2 Up 6 6 = {(2, 2), (1, 2), (0, 2)}
   \<and> card (exit_corridor 3 2 Up 6 6) = 3
   \<and> exit_corridor 0 2 Up 6 6 = {}
   \<and> exit_corridor 4 5 Right 6 6 = {}
   \<and> exit_corridor 4 1 Left 6 6 = {(4, 0)}"
proof -
  have g: "in_grid 3 2 6 6" "in_grid 0 2 6 6" "in_grid 4 5 6 6" "in_grid 4 1 6 6"
    by (simp_all add: in_grid_def)
  have "exit_corridor 3 2 Up 6 6 = {(2, 2), (1, 2), (0, 2)}" by code_simp
  moreover have "card (exit_corridor 3 2 Up 6 6) = 3"
    using exit_corridor_exact [OF g(1), of Up, THEN conjunct2, THEN conjunct2, THEN conjunct1]
    by simp
  moreover have "exit_corridor 0 2 Up 6 6 = {}"
    using exit_corridor_exact [OF g(2), of Up, THEN conjunct2, THEN conjunct1] by simp
  moreover have "exit_corridor 4 5 Right 6 6 = {}"
    using exit_corridor_exact [OF g(3), of Right, THEN conjunct2, THEN conjunct1] by simp
  moreover have "exit_corridor 4 1 Left 6 6 = {(4, 0)}"
    using exit_corridor_exact [OF g(4), of Left, THEN conjunct2, THEN conjunct2,
        THEN conjunct2] by simp
  ultimately show ?thesis by blast
qed

section \<open>The first blocker\<close>

text \<open>
  The path of a worm: the cells from its head (exclusive) to the boundary along its
  direction, nearest first.  A cell is passable for a worm when it is unoccupied or
  occupied by the worm itself.
\<close>

fun path_from :: "direction \<Rightarrow> int \<Rightarrow> int \<Rightarrow> nat \<Rightarrow> cell list" where
  "path_from d r c 0 = []"
| "path_from d r c (Suc n) =
     (r + fst (DIR_DELTA d), c + snd (DIR_DELTA d))
       # path_from d (r + fst (DIR_DELTA d)) (c + snd (DIR_DELTA d)) n"

definition corridor_path :: "direction \<Rightarrow> int \<Rightarrow> int \<Rightarrow> int \<Rightarrow> int \<Rightarrow> cell list" where
  "corridor_path d r c rows cols = path_from d r c (nat (depth d r c rows cols))"

definition passable :: "(cell \<rightharpoonup> string) \<Rightarrow> string \<Rightarrow> cell \<Rightarrow> bool" where
  "passable occupancy wid p \<longleftrightarrow> occupancy p = None \<or> occupancy p = Some wid"

definition first_obstacle :: "(cell \<rightharpoonup> string) \<Rightarrow> string \<Rightarrow> cell list \<Rightarrow> string option" where
  "first_obstacle occupancy wid path =
     (case find (\<lambda>p. \<not> passable occupancy wid p) path of
        None \<Rightarrow> None
      | Some p \<Rightarrow> occupancy p)"

lemma depth_nonneg: "in_grid r c rows cols \<Longrightarrow> 0 \<le> depth d r c rows cols"
  by (cases d) (auto simp: in_grid_def)

lemma depth_zero_edge:
  "in_grid r c rows cols \<Longrightarrow> depth d r c rows cols = 0 \<Longrightarrow>
   \<not> in_grid (r + fst (DIR_DELTA d)) (c + snd (DIR_DELTA d)) rows cols"
  by (cases d) (auto simp: in_grid_def)

lemma depth_step:
  "in_grid r c rows cols \<Longrightarrow> 0 < depth d r c rows cols \<Longrightarrow>
   in_grid (r + fst (DIR_DELTA d)) (c + snd (DIR_DELTA d)) rows cols
   \<and> depth d (r + fst (DIR_DELTA d)) (c + snd (DIR_DELTA d)) rows cols
       = depth d r c rows cols - 1"
  by (cases d) (auto simp: in_grid_def)

lemma first_blocker_loop_path:
  "in_grid r c rows cols \<Longrightarrow>
   first_blocker_loop d r c occ wid rows cols
     = first_obstacle occ wid (corridor_path d r c rows cols)"
proof (induction "nat (depth d r c rows cols)" arbitrary: r c)
  case 0
  with depth_nonneg [OF "0.prems", of d] have z: "depth d r c rows cols = 0" by simp
  from depth_zero_edge [OF "0.prems" z] z show ?case
    by (subst first_blocker_loop.simps) (simp add: corridor_path_def first_obstacle_def)
next
  case (Suc n)
  then have pos: "0 < depth d r c rows cols" by simp
  let ?r = "r + fst (DIR_DELTA d)" and ?c = "c + snd (DIR_DELTA d)"
  from depth_step [OF Suc.prems pos] have g: "in_grid ?r ?c rows cols"
    and dp: "depth d ?r ?c rows cols = depth d r c rows cols - 1" by simp_all
  from dp Suc.hyps(2) have n: "n = nat (depth d ?r ?c rows cols)" by simp
  have ih: "first_blocker_loop d ?r ?c occ wid rows cols
              = first_obstacle occ wid (corridor_path d ?r ?c rows cols)"
    by (rule Suc.hyps(1) [OF n g])
  have p: "corridor_path d r c rows cols = (?r, ?c) # corridor_path d ?r ?c rows cols"
    using Suc.hyps(2) n by (simp add: corridor_path_def flip: Suc.hyps(2))
  show ?case
    by (subst first_blocker_loop.simps)
       (auto simp: g ih p first_obstacle_def passable_def)
qed

lemma cells_ahead_edge:
  "in_grid r c rows cols \<Longrightarrow> depth d r c rows cols = 0 \<Longrightarrow> cells_ahead d r c rows cols = {}"
  by (cases d) (auto simp: cells_ahead_def in_grid_def)

lemma cells_ahead_step:
  "in_grid r c rows cols \<Longrightarrow> 0 < depth d r c rows cols \<Longrightarrow>
   cells_ahead d r c rows cols
     = insert (r + fst (DIR_DELTA d), c + snd (DIR_DELTA d))
         (cells_ahead d (r + fst (DIR_DELTA d)) (c + snd (DIR_DELTA d)) rows cols)"
  by (cases d) (auto simp: cells_ahead_def in_grid_def)

lemma set_corridor_path:
  "in_grid r c rows cols \<Longrightarrow> set (corridor_path d r c rows cols) = cells_ahead d r c rows cols"
proof (induction "nat (depth d r c rows cols)" arbitrary: r c)
  case 0
  with depth_nonneg [OF "0.prems", of d] have z: "depth d r c rows cols = 0" by simp
  with cells_ahead_edge [OF "0.prems" z] show ?case by (simp add: corridor_path_def)
next
  case (Suc n)
  then have pos: "0 < depth d r c rows cols" by simp
  let ?r = "r + fst (DIR_DELTA d)" and ?c = "c + snd (DIR_DELTA d)"
  from depth_step [OF Suc.prems pos] have g: "in_grid ?r ?c rows cols"
    and dp: "depth d ?r ?c rows cols = depth d r c rows cols - 1" by simp_all
  from dp Suc.hyps(2) have n: "n = nat (depth d ?r ?c rows cols)" by simp
  have p: "corridor_path d r c rows cols = (?r, ?c) # corridor_path d ?r ?c rows cols"
    using Suc.hyps(2) n by (simp add: corridor_path_def flip: Suc.hyps(2))
  show ?case
    by (simp add: p Suc.hyps(1) [OF n g] cells_ahead_step [OF Suc.prems pos])
qed

lemma first_obstacle_None:
  "first_obstacle occ wid path = None \<longleftrightarrow> (\<forall>p \<in> set path. passable occ wid p)"
  by (induction path) (auto simp: first_obstacle_def passable_def)

text \<open>
  C5.  For a worm whose head is inside the grid, \<open>_first_blocker\<close> walks the path from
  the head to the boundary, whose cells are exactly the cells of the grid ahead of the
  head, and returns the owner of the first cell on it that is occupied by another worm; it
  returns none exactly when every cell of the path is unoccupied or the worm's own.
\<close>

theorem first_blocker_nearest:
  assumes "head w = Inr (r, c)" and "in_grid r c rows cols"
  shows "first_blocker w occ rows cols
           = Inr (first_obstacle occ (worm_id w) (corridor_path (direction w) r c rows cols))
         \<and> set (corridor_path (direction w) r c rows cols)
             = cells_ahead (direction w) r c rows cols
         \<and> (first_blocker w occ rows cols = Inr None \<longleftrightarrow>
              (\<forall>p \<in> cells_ahead (direction w) r c rows cols. passable occ (worm_id w) p))"
proof -
  have a: "first_blocker w occ rows cols
           = Inr (first_obstacle occ (worm_id w) (corridor_path (direction w) r c rows cols))"
    using assms by (simp add: first_blocker_def first_blocker_loop_path)
  have b: "set (corridor_path (direction w) r c rows cols)
             = cells_ahead (direction w) r c rows cols"
    by (rule set_corridor_path [OF assms(2)])
  from a b show ?thesis by (simp add: first_obstacle_None)
qed

theorem first_blocker_nearest_witness:
  "first_blocker worm_A (build_occupancy [worm_A, worm_B, worm_C]) 6 6 = Inr (Some ''B'')
   \<and> corridor_path Right 3 2 6 6 = [(3, 3), (3, 4), (3, 5)]
   \<and> first_blocker worm_C (build_occupancy [worm_A, worm_B, worm_C]) 6 6 = Inr None"
proof -
  have h: "head worm_A = Inr (3, 2)" "head worm_C = Inr (1, 3)" by code_simp+
  have g: "in_grid 3 2 6 6" "in_grid 1 3 6 6" by (simp_all add: in_grid_def)
  have d: "direction worm_A = Right" "worm_id worm_A = ''A''"
    "direction worm_C = Left" "worm_id worm_C = ''C''"
    by (simp_all add: worm_A_def worm_C_def)
  have p: "corridor_path Right 3 2 6 6 = [(3, 3), (3, 4), (3, 5)]" by code_simp
  have q: "corridor_path Left 1 3 6 6 = [(1, 2), (1, 1), (1, 0)]" by code_simp
  have o: "first_obstacle (build_occupancy [worm_A, worm_B, worm_C]) ''A''
             [(3, 3), (3, 4), (3, 5)] = Some ''B''" by code_simp
  have o': "first_obstacle (build_occupancy [worm_A, worm_B, worm_C]) ''C''
             [(1, 2), (1, 1), (1, 0)] = None" by code_simp
  from first_blocker_nearest [OF h(1) g(1), of "build_occupancy [worm_A, worm_B, worm_C]"]
  have "first_blocker worm_A (build_occupancy [worm_A, worm_B, worm_C]) 6 6 = Inr (Some ''B'')"
    by (simp only: d p o)
  moreover
  from first_blocker_nearest [OF h(2) g(2), of "build_occupancy [worm_A, worm_B, worm_C]"]
  have "first_blocker worm_C (build_occupancy [worm_A, worm_B, worm_C]) 6 6 = Inr None"
    by (simp only: d q o')
  ultimately show ?thesis using p by blast
qed

section \<open>Deadlock\<close>

text \<open>
  The states the solver loop passes through, from a starting state: the remaining worms,
  the report so far, the extraction order so far and the number of rounds played.  A round
  that finds free worms leads to the next state.
\<close>

type_synonym solver_state = "Worm list \<times> string list \<times> string list \<times> nat"

inductive reaches :: "int \<Rightarrow> int \<Rightarrow> solver_state \<Rightarrow> solver_state \<Rightarrow> bool"
  for rows cols :: int and s :: solver_state where
  start: "reaches rows cols s s"
| round: "reaches rows cols s (worms, report, extraction_order, n) \<Longrightarrow>
          worms \<noteq> [] \<Longrightarrow>
          build_dependency_graph worms rows cols = Inr g \<Longrightarrow>
          free_of g \<noteq> [] \<Longrightarrow>
          reaches rows cols s
            (filter (\<lambda>w. worm_id w \<notin> set (free_of g)) worms,
             report @ round_report (Suc n) g,
             extraction_order @ free_of g,
             Suc n)"

definition run_from ::
  "int \<Rightarrow> int \<Rightarrow> solver_state \<Rightarrow> error + (bool \<times> string list \<times> string list \<times> nat)" where
  "run_from rows cols s =
     (case s of (worms, report, extraction_order, n) \<Rightarrow>
        is_solvable_loop rows cols worms report extraction_order n)"

definition blocked_line :: "graph \<Rightarrow> string \<Rightarrow> string" where
  "blocked_line g wid =
     ''  ['' @ wid @ ''] blocked by: '' @ join '', '' (sorted_list_of_set (deps_of g wid))"

text \<open>A hand-built layout of two worms, each with a body cell in the other's corridor.\<close>

definition DEADLOCK_LEVEL :: level_data where
  "DEADLOCK_LEVEL =
     \<lparr>ld_name = None, ld_rows = 2, ld_cols = 2,
      ld_grid = [''Ab'', ''aB''],
      ld_worms =
        [(''A'', \<lparr>meta_color = None, meta_direction = ''right''\<rparr>),
         (''B'', \<lparr>meta_color = None, meta_direction = ''left''\<rparr>)]\<rparr>"

lemma reaches_same_result:
  "reaches rows cols s s' \<Longrightarrow> run_from rows cols s' = run_from rows cols s"
proof (induction rule: reaches.induct)
  case start
  show ?case by simp
next
  case (round worms report extraction_order n g)
  have "run_from rows cols (worms, report, extraction_order, n)
          = run_from rows cols
              (filter (\<lambda>w. worm_id w \<notin> set (free_of g)) worms,
               report @ round_report (Suc n) g, extraction_order @ free_of g, Suc n)"
    using round.hyps(2,3,4)
    by (simp add: run_from_def is_solvable_loop.simps [of rows cols worms])
  with round.IH show ?case by simp
qed

lemma deadlock_result:
  assumes "worms \<noteq> []" and "build_dependency_graph worms rows cols = Inr g"
    and "free_of g = []"
  shows "run_from rows cols (worms, report, extraction_order, n)
           = Inr (False, report @ deadlock_report (Suc n) g worms, extraction_order, Suc n)"
  using assms by (simp add: run_from_def is_solvable_loop.simps [of rows cols worms])

lemma no_free_all_blocked:
  assumes "free_of g = []" and "k \<in> fst ` set g"
  shows "deps_of g k \<noteq> {}"
proof -
  from assms(2) obtain deps where m: "map_of g k = Some deps"
    by (metis domD dom_map_of_conv_image_fst)
  then have "(k, deps) \<in> set g" by (rule map_of_SomeD)
  have "deps \<noteq> {}"
  proof
    assume "deps = {}"
    with \<open>(k, deps) \<in> set g\<close> have "k \<in> set (free_of g)"
      by (force simp: free_of_def)
    with assms(1) show False by simp
  qed
  with m show ?thesis by (simp add: deps_of_def)
qed

lemma blocked_line_in_report:
  "k \<in> fst ` set g \<Longrightarrow> blocked_line g k \<in> set (deadlock_report n g worms)"
  by (auto simp: deadlock_report_def blocked_line_def)

text \<open>
  C4.  When a round of the solver, on the worms of a loaded layout, finds no worm with an
  empty blocking set although worms remain, the run stops there with the verdict
  unsolvable: the report is the report so far followed by the deadlock report, in which
  every remaining worm has its line with its blockers, none of the remaining worms is
  without a blocker, and the extraction order is the order before that round.
\<close>

theorem deadlock_stops:
  assumes "load_level ld = Inr (rows, cols, name, worms0)"
    and "reaches rows cols (worms0, [], [], 0) (worms, report, extraction_order, n)"
    and "worms \<noteq> []"
    and "build_dependency_graph worms rows cols = Inr g"
    and "free_of g = []"
  shows "solve ld = Inr (False, report @ deadlock_report (Suc n) g worms,
                         extraction_order, Suc n)
         \<and> is_solvable ld = Inr (False, report @ deadlock_report (Suc n) g worms)
         \<and> (\<forall>w \<in> set worms.
               blocked_line g (worm_id w) \<in> set (deadlock_report (Suc n) g worms)
               \<and> deps_of g (worm_id w) \<noteq> {})
         \<and> (''Remaining worms ('' @ show_nat (length worms) @ ''): ''
               @ join '', '' (sort (map worm_id worms)))
             \<in> set (deadlock_report (Suc n) g worms)"
proof -
  have "solve ld = run_from rows cols (worms0, [], [], 0)"
    using assms(1) by (simp add: solve_def run_from_def)
  also have "\<dots> = run_from rows cols (worms, report, extraction_order, n)"
    by (rule reaches_same_result [OF assms(2), symmetric])
  also have "\<dots> = Inr (False, report @ deadlock_report (Suc n) g worms,
                        extraction_order, Suc n)"
    by (rule deadlock_result [OF assms(3,4,5)])
  finally have s: "solve ld = Inr (False, report @ deadlock_report (Suc n) g worms,
                                   extraction_order, Suc n)" .
  then have i: "is_solvable ld = Inr (False, report @ deadlock_report (Suc n) g worms)"
    by (simp add: is_solvable_def)
  have keys: "fst ` set g = worm_id ` set worms"
    by (rule keys_build_dependency_graph [OF assms(4)])
  have lines: "\<forall>w \<in> set worms.
      blocked_line g (worm_id w) \<in> set (deadlock_report (Suc n) g worms)
      \<and> deps_of g (worm_id w) \<noteq> {}"
    using keys blocked_line_in_report [of _ g] no_free_all_blocked [OF assms(5)] by blast
  have r: "(''Remaining worms ('' @ show_nat (length worms) @ ''): ''
               @ join '', '' (sort (map worm_id worms)))
             \<in> set (deadlock_report (Suc n) g worms)"
    by (simp add: deadlock_report_def)
  from s i lines r show ?thesis by blast
qed

theorem deadlock_stops_witness:
  "solve DEADLOCK_LEVEL
     = Inr (False,
            [''Round 1: DEADLOCK'', ''  [A] blocked by: B'', ''  [B] blocked by: A'', [],
             ''Remaining worms (2): A, B'',
             ''Verdict: UNSOLVABLE '' @ em_dash @ '' cyclic dependency detected.''],
            [], 1)"
proof -
  define wa where "wa = \<lparr>worm_id = ''A'', segments = [(1, 0), (0, 0)],
                         direction = Right, color = ''white''\<rparr>"
  define wb where "wb = \<lparr>worm_id = ''B'', segments = [(0, 1), (1, 1)],
                         direction = Left, color = ''white''\<rparr>"
  define g :: graph where "g = [(''A'', {''B''}), (''B'', {''A''})]"
  have l: "load_level DEADLOCK_LEVEL = Inr (2, 2, ''Unnamed Level'', [wa, wb])"
    unfolding wa_def wb_def by code_simp
  have b: "build_dependency_graph [wa, wb] 2 2 = Inr g"
    unfolding wa_def wb_def g_def by code_simp
  have f: "free_of g = []" unfolding g_def by code_simp
  have r: "deadlock_report (Suc 0) g [wa, wb]
             = [''Round 1: DEADLOCK'', ''  [A] blocked by: B'', ''  [B] blocked by: A'', [],
                ''Remaining worms (2): A, B'',
                ''Verdict: UNSOLVABLE '' @ em_dash @ '' cyclic dependency detected.'']"
    unfolding wa_def wb_def g_def by code_simp
  have ne: "[wa, wb] \<noteq> []" by simp
  from deadlock_stops [OF l reaches.start ne b f, THEN conjunct1]
  show ?thesis by (simp only: r append_Nil One_nat_def)
qed

section \<open>What the parser rejects\<close>

lemma build_worms_reject_iff:
  "(\<exists>e. build_worms cm metas = Inl e)
     \<longleftrightarrow> (\<exists>(wid, meta) \<in> set metas. \<exists>e. build_worm cm wid meta = Inl e)"
  by (induction metas) (auto split: sum.splits)

lemma build_worm_reject_iff:
  assumes "single_heads cells"
  shows "(\<exists>e. build_worm (summary cells) wid meta = Inl e)
     \<longleftrightarrow> heads_of cells wid = []
         \<or> (\<exists>h b. heads_of cells wid = [h] \<and> b \<in> set (bodies_of cells wid)
                  \<and> leading_violation (meta_direction meta) h b)
         \<or> direction_of_name (meta_direction meta) = None"
proof (cases "heads_of cells wid")
  case Nil
  then show ?thesis by (simp add: build_worm_def summary_def)
next
  case (Cons h hs)
  with assms have "length (h # hs) \<le> 1" by (metis single_heads_def)
  with Cons have one: "heads_of cells wid = [h]" by simp
  then have s: "summary cells wid = Some (Some h, bodies_of cells wid)"
    by (simp add: summary_def)
  show ?thesis
  proof (cases "find (leading_violation (meta_direction meta) h) (bodies_of cells wid)")
    case None
    then have "\<not> (\<exists>b. b \<in> set (bodies_of cells wid)
                     \<and> leading_violation (meta_direction meta) h b)"
      by (auto simp: find_None_iff)
    with None one s show ?thesis
      by (auto simp: build_worm_def split: option.splits)
  next
    case (Some b)
    then have "b \<in> set (bodies_of cells wid) \<and> leading_violation (meta_direction meta) h b"
      by (auto simp: find_Some_iff)
    with Some one s show ?thesis by (cases b) (auto simp: build_worm_def)
  qed
qed

text \<open>A level with a body cell of an id that has no head and no metadata.\<close>

definition STRAY_LEVEL :: level_data where
  "STRAY_LEVEL =
     \<lparr>ld_name = None, ld_rows = 1, ld_cols = 2, ld_grid = [''Ab''],
      ld_worms = [(''A'', \<lparr>meta_color = None, meta_direction = ''right''\<rparr>)]\<rparr>"

text \<open>
  C9, as the code has it.  \<open>load_level\<close> raises exactly when some id has more than one
  head cell on the grid, or an id of the metadata mapping is not on the grid, has no head
  cell, has a body cell strictly further along its direction than its head, or has a
  direction that is none of the four names.  Ids that occur only on the grid are not
  looked at.
\<close>

theorem load_level_rejects_iff:
  "(\<exists>e. load_level ld = Inl e)
     \<longleftrightarrow> (\<exists>wid. 2 \<le> length (head_cells ld wid))
         \<or> (\<exists>(wid, meta) \<in> set (ld_worms ld).
               \<not> on_grid ld wid
               \<or> head_cells ld wid = []
               \<or> (\<exists>h b. head_cells ld wid = [h] \<and> b \<in> set (body_cells ld wid)
                        \<and> leading_violation (meta_direction meta) h b)
               \<or> direction_of_name (meta_direction meta) = None)"
proof (cases "single_heads (grid_cells 0 (ld_grid ld))")
  case False
  then obtain wid where "\<not> length (heads_of (grid_cells 0 (ld_grid ld)) wid) \<le> 1"
    by (auto simp: single_heads_def)
  then have "2 \<le> length (head_cells ld wid)" by (simp add: head_cells_def)
  then have "\<exists>wid. 2 \<le> length (head_cells ld wid)" ..
  moreover from False have "\<exists>e. load_level ld = Inl e"
    by (subst load_level_def, subst scan_grid_summary) simp
  ultimately show ?thesis by blast
next
  case True
  have "\<not> (\<exists>wid. 2 \<le> length (head_cells ld wid))"
  proof
    assume "\<exists>wid. 2 \<le> length (head_cells ld wid)"
    then obtain wid where "2 \<le> length (heads_of (grid_cells 0 (ld_grid ld)) wid)"
      by (auto simp: head_cells_def)
    moreover from True have "length (heads_of (grid_cells 0 (ld_grid ld)) wid) \<le> 1"
      by (simp add: single_heads_def)
    ultimately show False by simp
  qed
  moreover have "\<And>wid. \<not> on_grid ld wid \<Longrightarrow> head_cells ld wid = []"
    by (simp add: on_grid_def)
  moreover have "(\<exists>e. load_level ld = Inl e)
      \<longleftrightarrow> (\<exists>e. build_worms (summary (grid_cells 0 (ld_grid ld))) (ld_worms ld) = Inl e)"
    using True
    by (subst load_level_def, subst scan_grid_summary) (auto split: sum.splits)
  ultimately show ?thesis
    unfolding build_worms_reject_iff build_worm_reject_iff [OF True]
    by (simp add: head_cells_def body_cells_def) blast
qed

theorem load_level_rejects_iff_witness:
  "(\<exists>e. load_level
           \<lparr>ld_name = None, ld_rows = 1, ld_cols = 2, ld_grid = [''AA''],
            ld_worms = [(''A'', \<lparr>meta_color = None, meta_direction = ''right''\<rparr>)]\<rparr> = Inl e)
   \<and> (\<exists>e. load_level
           \<lparr>ld_name = None, ld_rows = 1, ld_cols = 2, ld_grid = [''Aa''],
            ld_worms = [(''A'', \<lparr>meta_color = None, meta_direction = ''right''\<rparr>)]\<rparr> = Inl e)
   \<and> \<not> (\<exists>wid. 2 \<le> length (head_cells LEVEL_01 wid))"
proof -
  let ?two = "\<lparr>ld_name = None, ld_rows = 1, ld_cols = 2, ld_grid = [''AA''],
            ld_worms = [(''A'', \<lparr>meta_color = None, meta_direction = ''right''\<rparr>)]\<rparr>"
  let ?ahead = "\<lparr>ld_name = None, ld_rows = 1, ld_cols = 2, ld_grid = [''Aa''],
            ld_worms = [(''A'', \<lparr>meta_color = None, meta_direction = ''right''\<rparr>)]\<rparr>"
  have "2 \<le> length (head_cells ?two ''A'')" by code_simp
  then have a: "\<exists>e. load_level ?two = Inl e"
    using load_level_rejects_iff [of ?two] by blast
  have "head_cells ?ahead ''A'' = [(0, 0)]" "(0, 1) \<in> set (body_cells ?ahead ''A'')"
    "leading_violation ''right'' (0, 0) (0, 1)"
    by code_simp+
  then have v: "\<exists>h b. head_cells ?ahead ''A'' = [h] \<and> b \<in> set (body_cells ?ahead ''A'')
                        \<and> leading_violation ''right'' h b"
    by blast
  have m: "(''A'', \<lparr>meta_color = None, meta_direction = ''right''\<rparr>) \<in> set (ld_worms ?ahead)"
    by simp
  have "\<exists>(wid, meta) \<in> set (ld_worms ?ahead).
               \<not> on_grid ?ahead wid
               \<or> head_cells ?ahead wid = []
               \<or> (\<exists>h b. head_cells ?ahead wid = [h] \<and> b \<in> set (body_cells ?ahead wid)
                        \<and> leading_violation (meta_direction meta) h b)
               \<or> direction_of_name (meta_direction meta) = None"
    by (rule bexI [OF _ m]) (use v in \<open>simp only: prod.case worm_meta.select_convs\<close>, blast)
  then have b: "\<exists>e. load_level ?ahead = Inl e"
    using load_level_rejects_iff [of ?ahead] by blast
  have "\<exists>x. load_level LEVEL_01 = Inr x"
    using level_01_loads by blast
  then have "\<not> (\<exists>e. load_level LEVEL_01 = Inl e)" by auto
  then have c: "\<not> (\<exists>wid. 2 \<le> length (head_cells LEVEL_01 wid))"
    using load_level_rejects_iff [of LEVEL_01] by blast
  from a b c show ?thesis by blast
qed

text \<open>
  The claim as the specification words it fails: in \<open>STRAY_LEVEL\<close> the id \<open>B\<close> is on the
  grid, has no head cell and is not in the metadata mapping, and \<open>load_level\<close> returns the
  worm \<open>A\<close>.
\<close>

theorem stray_grid_id_accepted:
  "on_grid STRAY_LEVEL ''B''
   \<and> head_cells STRAY_LEVEL ''B'' = []
   \<and> ''B'' \<notin> fst ` set (ld_worms STRAY_LEVEL)
   \<and> load_level STRAY_LEVEL
       = Inr (1, 2, ''Unnamed Level'',
              [\<lparr>worm_id = ''A'', segments = [(0, 0)], direction = Right,
                color = ''white''\<rparr>])"
  by code_simp

section \<open>Layouts that the solver clears\<close>

text \<open>
  A list of worms is layered when the ids are distinct, every worm has a head inside the
  grid, and the corridor of each worm holds no cell of a worm earlier in the list.
\<close>

definition corridor_of :: "int \<Rightarrow> int \<Rightarrow> Worm \<Rightarrow> cell set" where
  "corridor_of rows cols w =
     cells_ahead (direction w) (fst (last (segments w))) (snd (last (segments w))) rows cols"

definition headed :: "int \<Rightarrow> int \<Rightarrow> Worm \<Rightarrow> bool" where
  "headed rows cols w \<longleftrightarrow>
     segments w \<noteq> [] \<and> in_grid (fst (last (segments w))) (snd (last (segments w))) rows cols"

definition layered :: "int \<Rightarrow> int \<Rightarrow> Worm list \<Rightarrow> bool" where
  "layered rows cols ws \<longleftrightarrow>
     distinct (map worm_id ws) \<and> (\<forall>w \<in> set ws. headed rows cols w)
     \<and> sorted_wrt (\<lambda>a b. corridor_of rows cols b \<inter> set (segments a) = {}) ws"

lemma layered_filter: "layered rows cols ws \<Longrightarrow> layered rows cols (filter P ws)"
  by (auto simp: layered_def distinct_map_filter sorted_wrt_filter)

subsection \<open>Occupancy\<close>

lemma fold_segments_lookup:
  "fold (\<lambda>seg occ'. occ'(seg \<mapsto> k)) segs m p = (if p \<in> set segs then Some k else m p)"
  by (induction segs arbitrary: m) auto

lemma fold_occupancy_owner:
  "fold (\<lambda>w occ. fold (\<lambda>seg occ'. occ'(seg \<mapsto> worm_id w)) (segments w) occ) ws m p = Some k
   \<Longrightarrow> m p = Some k \<or> (\<exists>w \<in> set ws. p \<in> set (segments w) \<and> worm_id w = k)"
proof (induction ws arbitrary: m)
  case Nil
  then show ?case by simp
next
  case (Cons w ws)
  from Cons.prems have
    "fold (\<lambda>w occ. fold (\<lambda>seg occ'. occ'(seg \<mapsto> worm_id w)) (segments w) occ) ws
       (fold (\<lambda>seg occ'. occ'(seg \<mapsto> worm_id w)) (segments w) m) p = Some k"
    by (simp only: fold.simps o_apply)
  from Cons.IH [OF this] show ?case
    by (auto simp: fold_segments_lookup split: if_splits)
qed

lemma build_occupancy_owner:
  "build_occupancy ws p = Some k \<Longrightarrow> \<exists>w \<in> set ws. p \<in> set (segments w) \<and> worm_id w = k"
  unfolding build_occupancy_def by (drule fold_occupancy_owner) simp

subsection \<open>The last worm of a layered list is free\<close>

lemma head_headed:
  "headed rows cols w \<Longrightarrow> head w = Inr (last (segments w))"
  by (cases "segments w") (auto simp: headed_def head_def)

lemma first_blocker_headed:
  assumes "headed rows cols w"
  shows "first_blocker w occ rows cols
           = Inr (first_obstacle occ (worm_id w)
                    (corridor_path (direction w) (fst (last (segments w)))
                       (snd (last (segments w))) rows cols))"
proof -
  obtain r c where l: "last (segments w) = (r, c)" by (cases "last (segments w)")
  with assms have "in_grid r c rows cols" by (simp add: headed_def)
  then show ?thesis
    by (simp add: first_blocker_def head_headed [OF assms] l first_blocker_loop_path)
qed

lemma first_blocker_free_iff:
  assumes "headed rows cols w"
  shows "first_blocker w occ rows cols = Inr None
           \<longleftrightarrow> (\<forall>p \<in> corridor_of rows cols w. passable occ (worm_id w) p)"
  using assms
  by (simp add: first_blocker_headed first_obstacle_None corridor_of_def headed_def
                set_corridor_path)

lemma last_free:
  assumes "layered rows cols ws" and "ws \<noteq> []"
  shows "first_blocker (last ws) (build_occupancy ws) rows cols = Inr None"
proof -
  obtain xs w where ws: "ws = xs @ [w]"
    using assms(2) by (metis append_butlast_last_id)
  from assms(1) have h: "headed rows cols w"
    and clear: "\<forall>x \<in> set xs. corridor_of rows cols w \<inter> set (segments x) = {}"
    by (auto simp: layered_def ws sorted_wrt_append)
  have "\<forall>p \<in> corridor_of rows cols w. passable (build_occupancy ws) (worm_id w) p"
  proof
    fix p assume p: "p \<in> corridor_of rows cols w"
    show "passable (build_occupancy ws) (worm_id w) p"
    proof (cases "build_occupancy ws p")
      case None
      then show ?thesis by (simp add: passable_def)
    next
      case (Some k)
      from build_occupancy_owner [OF this] obtain x where
        x: "x \<in> set ws" "p \<in> set (segments x)" "worm_id x = k" by blast
      with clear p have "x = w" by (auto simp: ws)
      with x Some show ?thesis by (simp add: passable_def)
    qed
  qed
  with h show ?thesis by (simp add: ws first_blocker_free_iff)
qed

subsection \<open>The graph of a list of worms\<close>

lemma deps_of_update:
  "deps_of (AList.update k v g) k' = (if k' = k then v else deps_of g k')"
  by (simp add: deps_of_def update_conv')

lemma distinct_keys_init_graph: "distinct (map fst (init_graph ws))"
proof -
  have "\<And>g0. distinct (map fst g0) \<Longrightarrow>
          distinct (map fst (fold (\<lambda>w g. AList.update (worm_id w) {} g) ws g0))"
    by (induction ws) (auto simp: distinct_update)
  from this [of "[]"] show ?thesis by (simp add: init_graph_def)
qed

lemma deps_of_init_graph: "deps_of (init_graph ws) k = {}"
proof -
  have "\<And>g0. deps_of g0 k = {} \<Longrightarrow>
          deps_of (fold (\<lambda>w g. AList.update (worm_id w) {} g) ws g0) k = {}"
    by (induction ws) (auto simp: deps_of_update)
  from this [of "[]"] show ?thesis by (simp add: init_graph_def deps_of_def)
qed

lemma add_blockers_distinct:
  "add_blockers ws occ rows cols g0 = Inr g \<Longrightarrow> distinct (map fst g0) \<Longrightarrow>
   distinct (map fst g)"
  by (induction ws arbitrary: g0)
     (auto simp: distinct_update split: sum.splits option.splits)

lemma add_blockers_deps:
  "add_blockers ws occ rows cols g0 = Inr g \<Longrightarrow>
   deps_of g k = deps_of g0 k
     \<union> {b. \<exists>w \<in> set ws. worm_id w = k \<and> first_blocker w occ rows cols = Inr (Some b)}"
proof (induction ws arbitrary: g0)
  case Nil
  then show ?case by simp
next
  case (Cons w ws)
  show ?case
  proof (cases "first_blocker w occ rows cols")
    case (Inl e)
    with Cons.prems show ?thesis by simp
  next
    case (Inr bo)
    show ?thesis
    proof (cases bo)
      case None
      with Inr Cons.prems have "add_blockers ws occ rows cols g0 = Inr g" by simp
      from Cons.IH [OF this] Inr None show ?thesis by auto
    next
      case (Some b)
      with Inr Cons.prems obtain deps where
        d: "map_of g0 (worm_id w) = Some deps" and
        r: "add_blockers ws occ rows cols
              (AList.update (worm_id w) (insert b deps) g0) = Inr g"
        by (auto split: option.splits)
      from d have dd: "deps_of g0 (worm_id w) = deps" by (simp add: deps_of_def)
      from Cons.IH [OF r] Inr Some dd show ?thesis
        by (auto simp: deps_of_update split: if_splits)
    qed
  qed
qed

lemma add_blockers_total:
  "\<forall>w \<in> set ws. headed rows cols w \<Longrightarrow> worm_id ` set ws \<subseteq> fst ` set g0 \<Longrightarrow>
   \<exists>g. add_blockers ws occ rows cols g0 = Inr g"
proof (induction ws arbitrary: g0)
  case Nil
  show ?case by simp
next
  case (Cons w ws)
  from Cons.prems(1) have h: "headed rows cols w" by simp
  from Cons.prems(2) obtain deps where d: "map_of g0 (worm_id w) = Some deps"
    by (metis domD dom_map_of_conv_image_fst image_subset_iff list.set_intros(1))
  have k: "\<And>v. worm_id ` set ws \<subseteq> fst ` set (AList.update (worm_id w) v g0)"
    using Cons.prems(2) by (auto simp: keys_update)
  show ?case
    using Cons.IH [OF _ k] Cons.IH [of g0] Cons.prems d
    by (auto simp: first_blocker_headed [OF h] split: option.splits)
qed

lemma graph_of_headed:
  assumes "\<forall>w \<in> set ws. headed rows cols w"
  obtains g where "build_dependency_graph ws rows cols = Inr g"
    and "distinct (map fst g)" and "fst ` set g = worm_id ` set ws"
    and "\<And>k. deps_of g k
           = {b. \<exists>w \<in> set ws. worm_id w = k
                  \<and> first_blocker w (build_occupancy ws) rows cols = Inr (Some b)}"
proof -
  from add_blockers_total [OF assms, of "init_graph ws" "build_occupancy ws"]
  obtain g where g: "add_blockers ws (build_occupancy ws) rows cols (init_graph ws) = Inr g"
    by (auto simp: keys_init_graph)
  then have b: "build_dependency_graph ws rows cols = Inr g"
    by (simp add: build_dependency_graph_def)
  show ?thesis
  proof
    show "build_dependency_graph ws rows cols = Inr g" by (rule b)
    show "distinct (map fst g)"
      by (rule add_blockers_distinct [OF g distinct_keys_init_graph])
    show "fst ` set g = worm_id ` set ws"
      by (rule keys_build_dependency_graph [OF b])
    show "\<And>k. deps_of g k
           = {b. \<exists>w \<in> set ws. worm_id w = k
                  \<and> first_blocker w (build_occupancy ws) rows cols = Inr (Some b)}"
      by (simp add: add_blockers_deps [OF g] deps_of_init_graph)
  qed
qed

lemma set_free_of:
  assumes "distinct (map fst g)"
  shows "set (free_of g) = {k \<in> fst ` set g. deps_of g k = {}}"
proof -
  have "\<And>k deps. (k, deps) \<in> set g \<longleftrightarrow> map_of g k = Some deps"
    using assms by simp
  then show ?thesis
    by (auto simp: free_of_def deps_of_def image_iff split: option.splits)
qed

lemma distinct_free_of: "distinct (map fst g) \<Longrightarrow> distinct (free_of g)"
  by (simp add: free_of_def distinct_map_filter)

subsection \<open>The run on a layered list\<close>

lemma last_in_free:
  assumes "layered rows cols ws" and "ws \<noteq> []"
    and "build_dependency_graph ws rows cols = Inr g"
  shows "worm_id (last ws) \<in> set (free_of g)"
proof -
  from assms(1) have hs: "\<forall>w \<in> set ws. headed rows cols w"
    and di: "distinct (map worm_id ws)"
    by (simp_all add: layered_def)
  from graph_of_headed [OF hs] obtain g' where
    "build_dependency_graph ws rows cols = Inr g'"
    "distinct (map fst g')" "fst ` set g' = worm_id ` set ws"
    "\<And>k. deps_of g' k
           = {b. \<exists>w \<in> set ws. worm_id w = k
                  \<and> first_blocker w (build_occupancy ws) rows cols = Inr (Some b)}"
    by blast
  with assms(3) have
    dk: "distinct (map fst g)" and keys: "fst ` set g = worm_id ` set ws"
    and deps: "\<And>k. deps_of g k
           = {b. \<exists>w \<in> set ws. worm_id w = k
                  \<and> first_blocker w (build_occupancy ws) rows cols = Inr (Some b)}"
    by simp_all
  have l: "last ws \<in> set ws" using assms(2) by simp
  have u: "\<And>w. w \<in> set ws \<Longrightarrow> worm_id w = worm_id (last ws) \<Longrightarrow> w = last ws"
    using di l by (meson distinct_map inj_onD)
  have "deps_of g (worm_id (last ws)) = {}"
  proof (rule ccontr)
    assume "deps_of g (worm_id (last ws)) \<noteq> {}"
    then obtain b w where "w \<in> set ws" "worm_id w = worm_id (last ws)"
      "first_blocker w (build_occupancy ws) rows cols = Inr (Some b)"
      unfolding deps by blast
    with u [of w] have "first_blocker (last ws) (build_occupancy ws) rows cols = Inr (Some b)"
      by simp
    with last_free [OF assms(1,2)] show False by simp
  qed
  with keys l show ?thesis by (auto simp: set_free_of [OF dk])
qed

lemma extract_partition:
  assumes "distinct (map worm_id ws)" and "distinct free" and "set free \<subseteq> worm_id ` set ws"
  shows "mset free + mset (map worm_id (filter (\<lambda>w. worm_id w \<notin> set free) ws))
           = mset (map worm_id ws)"
proof -
  let ?ids = "map worm_id ws"
  have "mset (filter (\<lambda>k. k \<in> set free) ?ids) = mset free"
    using assms by (intro set_eq_iff_mset_eq_distinct [THEN iffD1]) auto
  moreover have "map worm_id (filter (\<lambda>w. worm_id w \<notin> set free) ws)
                   = filter (\<lambda>k. k \<notin> set free) ?ids"
    by (simp add: filter_map comp_def)
  moreover have "mset (filter (\<lambda>k. k \<in> set free) ?ids)
                   + mset (filter (\<lambda>k. k \<notin> set free) ?ids) = mset ?ids"
    by (simp only: mset_filter multiset_partition [symmetric])
  ultimately show ?thesis by simp
qed

lemma extract_last_only:
  assumes "distinct (map worm_id ws)" and "ws \<noteq> []"
  shows "filter (\<lambda>w. worm_id w \<notin> {worm_id (last ws)}) ws = butlast ws"
proof -
  obtain xs w where ws: "ws = xs @ [w]"
    using assms(2) by (metis append_butlast_last_id)
  with assms(1) have "worm_id w \<notin> worm_id ` set xs" by simp
  then have "\<forall>x \<in> set xs. worm_id x \<noteq> worm_id w" by (metis imageI)
  then show ?thesis by (simp add: ws)
qed

lemma layered_solved:
  "layered rows cols ws \<Longrightarrow>
   \<exists>mid extra n'.
     is_solvable_loop rows cols ws report ord n
       = Inr (True, report @ mid @ final_report (ord @ extra) n', ord @ extra, n')
     \<and> mset extra = mset (map worm_id ws)
     \<and> n' \<le> n + length ws
     \<and> (n' = n + length ws \<longrightarrow> extra = rev (map worm_id ws))"
proof (induction "length ws" arbitrary: ws report ord n rule: less_induct)
  case less
  show ?case
  proof (cases "ws = []")
    case True
    then show ?thesis by (simp add: is_solvable_loop.simps [of rows cols "[]"])
  next
    case False
    from less.prems have hs: "\<forall>w \<in> set ws. headed rows cols w"
      and di: "distinct (map worm_id ws)"
      by (simp_all add: layered_def)
    from graph_of_headed [OF hs] obtain g where
      g: "build_dependency_graph ws rows cols = Inr g"
      and dk: "distinct (map fst g)" and keys: "fst ` set g = worm_id ` set ws"
      by metis
    let ?free = "free_of g"
    let ?ws' = "filter (\<lambda>w. worm_id w \<notin> set ?free) ws"
    have lf: "worm_id (last ws) \<in> set ?free"
      by (rule last_in_free [OF less.prems False g])
    then have ne: "?free \<noteq> []" by auto
    have df: "distinct ?free" by (rule distinct_free_of [OF dk])
    have sub: "set ?free \<subseteq> worm_id ` set ws"
      using free_of_subset [of g] keys by simp
    have part: "mset ?free + mset (map worm_id ?ws') = mset (map worm_id ws)"
      by (rule extract_partition [OF di df sub])
    then have "mset (?free @ map worm_id ?ws') = mset (map worm_id ws)" by simp
    then have "length (?free @ map worm_id ?ws') = length (map worm_id ws)"
      by (rule mset_eq_length)
    then have len: "length ?free + length ?ws' = length ws" by simp
    have pos: "0 < length ?free" using ne by simp
    with len have shorter: "length ?ws' < length ws" by linarith
    from less.hyps [OF shorter layered_filter [OF less.prems],
        of "report @ round_report (Suc n) g" "ord @ ?free" "Suc n"]
    obtain mid extra n' where
      run: "is_solvable_loop rows cols ?ws' (report @ round_report (Suc n) g)
              (ord @ ?free) (Suc n)
            = Inr (True, (report @ round_report (Suc n) g) @ mid
                           @ final_report ((ord @ ?free) @ extra) n',
                   (ord @ ?free) @ extra, n')"
      and ms: "mset extra = mset (map worm_id ?ws')"
      and le: "n' \<le> Suc n + length ?ws'"
      and eq: "n' = Suc n + length ?ws' \<longrightarrow> extra = rev (map worm_id ?ws')"
      by blast
    have step: "is_solvable_loop rows cols ws report ord n
                  = Inr (True, report @ (round_report (Suc n) g @ mid)
                                 @ final_report (ord @ (?free @ extra)) n',
                         ord @ (?free @ extra), n')"
      using False g ne run by (simp add: is_solvable_loop.simps [of rows cols ws])
    have m: "mset (?free @ extra) = mset (map worm_id ws)"
      using ms part by simp
    have b: "n' \<le> n + length ws" using le len pos by linarith
    have e: "n' = n + length ws \<longrightarrow> ?free @ extra = rev (map worm_id ws)"
    proof
      assume top: "n' = n + length ws"
      with le len pos have one: "length ?free = 1" and top': "n' = Suc n + length ?ws'"
        by linarith+
      from one lf have fr: "?free = [worm_id (last ws)]"
        by (cases ?free) auto
      then have "?ws' = butlast ws"
        using extract_last_only [OF di False] by simp
      with eq top' have "extra = rev (map worm_id (butlast ws))" by simp
      with fr have "?free @ extra = worm_id (last ws) # rev (map worm_id (butlast ws))"
        by simp
      also have "\<dots> = rev (map worm_id (butlast ws @ [last ws]))" by simp
      also have "\<dots> = rev (map worm_id ws)" using False by simp
      finally show "?free @ extra = rev (map worm_id ws)" .
    qed
    from step m b e show ?thesis by blast
  qed
qed

section \<open>What the generator places\<close>

subsection \<open>Heads\<close>

definition head_ok ::
  "int \<Rightarrow> int \<Rightarrow> cell set \<Rightarrow> int \<times> int \<times> direction \<times> cell set \<Rightarrow> bool" where
  "head_ok rows cols occ res \<longleftrightarrow>
     (case res of (hr, hc, d, corridor) \<Rightarrow>
        in_grid hr hc rows cols \<and> (hr, hc) \<notin> occ
        \<and> corridor = exit_corridor hr hc d rows cols \<and> corridor \<inter> occ = {})"

lemma try_depths_Some:
  "try_depths edge_r edge_c d depths rows cols occ = Some res \<Longrightarrow> head_ok rows cols occ res"
  by (induction depths) (auto simp: head_ok_def Let_def split: if_splits)

lemma try_edges_Some:
  "try_edges edges mn mx rows cols occ g = (Some res, g') \<Longrightarrow> head_ok rows cols occ res"
proof (induction edges arbitrary: g)
  case Nil
  then show ?case by simp
next
  case (Cons e edges)
  obtain edge_r edge_c d where e: "e = (edge_r, edge_c, d)" by (cases e)
  obtain depths g1 where s: "shuffle [mn..mx] g = (depths, g1)"
    by (cases "shuffle [mn..mx] g")
  show ?case
  proof (cases "try_depths edge_r edge_c d depths rows cols occ")
    case None
    with Cons.prems e s have "try_edges edges mn mx rows cols occ g1 = (Some res, g')"
      by simp
    then show ?thesis by (rule Cons.IH)
  next
    case (Some r)
    with Cons.prems e s have "r = res" by simp
    with Some show ?thesis by (auto dest: try_depths_Some)
  qed
qed

lemma pick_head_Some:
  "pick_head rows cols occ mn mx g = (Some res, g') \<Longrightarrow> head_ok rows cols occ res"
  by (auto simp: pick_head_def split: prod.splits dest: try_edges_Some)

subsection \<open>Bodies\<close>

definition body_ok ::
  "int \<Rightarrow> int \<Rightarrow> cell set \<Rightarrow> int \<Rightarrow> int \<Rightarrow> direction \<Rightarrow> cell list \<Rightarrow> bool" where
  "body_ok rows cols occ hr hc d body \<longleftrightarrow>
     distinct body \<and> set body \<inter> occ = {} \<and> (hr, hc) \<notin> set body
     \<and> (\<forall>p \<in> set body. in_grid (fst p) (snd p) rows cols
                          \<and> valid_cell d hr hc (fst p) (snd p))"

lemma randbelow_less: "0 < n \<Longrightarrow> fst (randbelow n g) < n"
  by (cases g) (auto simp: randbelow_def)

lemma choice_member: "choice seq g = Inr (x, g') \<Longrightarrow> x \<in> set seq"
proof -
  assume c: "choice seq g = Inr (x, g')"
  then have ne: "seq \<noteq> []" by (auto simp: choice_def)
  then have "fst (randbelow (length seq) g) < length seq"
    by (intro randbelow_less) simp
  with c ne show ?thesis
    by (auto simp: choice_def split: prod.splits)
qed

lemma weighted_subset: "set (weighted_candidates tc cands) \<subseteq> set cands"
  by (auto simp: weighted_candidates_def)

lemma walk_candidate:
  "p \<in> set (walk_candidates d hr hc rows cols taken cur) \<Longrightarrow>
   in_grid (fst p) (snd p) rows cols \<and> p \<notin> taken \<and> valid_cell d hr hc (fst p) (snd p)"
  by (auto simp: walk_candidates_def)

lemma grow_loop_extends:
  "grow_loop n d hr hc tc rows cols body taken cur g = Inr (body', g') \<Longrightarrow>
   \<exists>new. body' = body @ new \<and> distinct new \<and> set new \<inter> taken = {}
         \<and> (\<forall>p \<in> set new. in_grid (fst p) (snd p) rows cols
                             \<and> valid_cell d hr hc (fst p) (snd p))"
proof (induction n arbitrary: body taken cur g)
  case 0
  then show ?case by simp
next
  case (Suc n)
  let ?cands = "walk_candidates d hr hc rows cols taken cur"
  show ?case
  proof (cases "?cands = []")
    case True
    with Suc.prems show ?thesis by simp
  next
    case False
    with Suc.prems obtain pos g1 where
      c: "choice (weighted_candidates tc ?cands) g = Inr (pos, g1)" and
      r: "grow_loop n d hr hc tc rows cols (body @ [pos]) (insert pos taken) pos g1
            = Inr (body', g')"
      by (auto split: sum.splits)
    from choice_member [OF c] weighted_subset have "pos \<in> set ?cands" by blast
    from walk_candidate [OF this] have
      p: "in_grid (fst pos) (snd pos) rows cols" "pos \<notin> taken"
         "valid_cell d hr hc (fst pos) (snd pos)"
      by simp_all
    from Suc.IH [OF r] obtain new where
      n: "body' = (body @ [pos]) @ new" "distinct new" "set new \<inter> insert pos taken = {}"
         "\<forall>p \<in> set new. in_grid (fst p) (snd p) rows cols
                          \<and> valid_cell d hr hc (fst p) (snd p)"
      by blast
    have "body' = body @ (pos # new)" using n(1) by simp
    moreover have "distinct (pos # new)" using n(2,3) by auto
    moreover have "set (pos # new) \<inter> taken = {}" using n(3) p(2) by auto
    moreover have "\<forall>q \<in> set (pos # new). in_grid (fst q) (snd q) rows cols
                          \<and> valid_cell d hr hc (fst q) (snd q)"
      using n(4) p by simp
    ultimately show ?thesis by blast
  qed
qed

lemma grow_body_Some:
  assumes "grow_body hr hc d occ tc mn mx rows cols g = Inr (Some body, g')"
  shows "body_ok rows cols occ hr hc d body"
proof -
  from assms obtain num_segs g1 where
    r: "randint mn mx g = Inr (num_segs, g1)"
    by (auto simp: grow_body_def split: sum.splits)
  show ?thesis
  proof (cases "num_segs = 0")
    case True
    with assms r show ?thesis by (simp add: grow_body_def body_ok_def)
  next
    case False
    with assms r obtain b where
      l: "grow_loop (nat num_segs) d hr hc tc rows cols [] (occ \<union> {(hr, hc)}) (hr, hc) g1
            = Inr (b, g')" and
      body: "body = rev b"
      by (auto simp: grow_body_def split: sum.splits if_splits)
    from grow_loop_extends [OF l] body show ?thesis
      by (auto simp: body_ok_def)
  qed
qed

subsection \<open>The attempts for one worm\<close>

lemma place_attempts_Some:
  "place_attempts n rows cols occ tc md mnb mxb g = Inr (Some (hr, hc, d, corridor, body), g')
   \<Longrightarrow> head_ok rows cols occ (hr, hc, d, corridor) \<and> body_ok rows cols occ hr hc d body"
proof (induction n arbitrary: g)
  case 0
  then show ?case by simp
next
  case (Suc n)
  obtain ph g1 where p: "pick_head rows cols occ 1 (Some md) g = (ph, g1)"
    by (cases "pick_head rows cols occ 1 (Some md) g")
  show ?case
  proof (cases ph)
    case None
    with Suc.prems p show ?thesis by simp
  next
    case (Some res)
    obtain hr' hc' d' corr' where res: "res = (hr', hc', d', corr')" by (cases res)
    from pick_head_Some p Some have h: "head_ok rows cols occ res" by blast
    show ?thesis
    proof (cases "grow_body hr' hc' d' occ tc mnb mxb rows cols g1")
      case (Inl e)
      with Suc.prems p Some res show ?thesis by simp
    next
      case (Inr bg)
      obtain bo g2 where bg: "bg = (bo, g2)" by (cases bg)
      show ?thesis
      proof (cases bo)
        case None
        with Suc.prems p Some res Inr bg have
          "place_attempts n rows cols occ tc md mnb mxb g2
             = Inr (Some (hr, hc, d, corridor, body), g')"
          by simp
        then show ?thesis by (rule Suc.IH)
      next
        case (Some b)
        with Suc.prems p \<open>ph = Some res\<close> res Inr bg have
          eq: "hr' = hr" "hc' = hc" "d' = d" "corr' = corridor" "b = body"
          by simp_all
        from grow_body_Some Inr bg Some eq have "body_ok rows cols occ hr hc d body"
          by blast
        with h res eq show ?thesis by simp
      qed
    qed
  qed
qed

subsection \<open>The invariant of the placement loop\<close>

definition placed_ok :: "int \<Rightarrow> int \<Rightarrow> placement \<Rightarrow> bool" where
  "placed_ok rows cols wd \<longleftrightarrow>
     p_segments wd = p_body wd @ [p_head wd] \<and> distinct (p_segments wd)
     \<and> (\<forall>p \<in> set (p_segments wd). in_grid (fst p) (snd p) rows cols)
     \<and> (\<forall>p \<in> set (p_body wd).
           valid_cell (p_direction wd) (fst (p_head wd)) (snd (p_head wd)) (fst p) (snd p))"

text \<open>An earlier worm \<open>a\<close> and a later worm \<open>b\<close>: no shared cell, and no cell of \<open>a\<close> in the
  corridor of \<open>b\<close>.\<close>

definition apart :: "int \<Rightarrow> int \<Rightarrow> placement \<Rightarrow> placement \<Rightarrow> bool" where
  "apart rows cols a b \<longleftrightarrow>
     set (p_segments a) \<inter> set (p_segments b) = {}
     \<and> cells_ahead (p_direction b) (fst (p_head b)) (snd (p_head b)) rows cols
         \<inter> set (p_segments a) = {}"

definition gen_inv :: "int \<Rightarrow> int \<Rightarrow> nat \<Rightarrow> gen_state \<Rightarrow> bool" where
  "gen_inv rows cols i st \<longleftrightarrow>
     occupied st = (\<Union>wd \<in> set (worms_placed st). set (p_segments wd))
     \<and> (\<forall>wd \<in> set (worms_placed st). placed_ok rows cols wd)
     \<and> map p_worm_id (worms_placed st) = map (\<lambda>k. [char_of (65 + k)]) [0..<i]
     \<and> sorted_wrt (apart rows cols) (worms_placed st)"

lemma gen_inv_init:
  "gen_inv rows cols 0 \<lparr>occupied = {}, worms_placed = [], corridors = []\<rparr>"
  by (simp add: gen_inv_def)

lemma gen_inv_length: "gen_inv rows cols i st \<Longrightarrow> length (worms_placed st) = i"
  by (metis gen_inv_def length_map length_upt minus_nat.diff_0)

lemma record_worm_inv:
  assumes inv: "gen_inv rows cols i st"
    and h: "head_ok rows cols (occupied st) (hr, hc, d, corridor)"
    and b: "body_ok rows cols (occupied st) hr hc d body"
  shows "gen_inv rows cols (Suc i) (record_worm i (hr, hc, d, corridor, body) st)"
proof -
  let ?wd = "\<lparr>p_worm_id = [char_of (65 + i)], p_head = (hr, hc), p_direction = d,
             p_body = body, p_color = COLOR_CYCLE ! (i mod length COLOR_CYCLE),
             p_segments = body @ [(hr, hc)]\<rparr>"
  from h have g: "in_grid hr hc rows cols" and free: "(hr, hc) \<notin> occupied st"
    and corr: "exit_corridor hr hc d rows cols \<inter> occupied st = {}"
    by (auto simp: head_ok_def)
  from inv have occ: "occupied st = (\<Union>wd \<in> set (worms_placed st). set (p_segments wd))"
    and oks: "\<forall>wd \<in> set (worms_placed st). placed_ok rows cols wd"
    and ids: "map p_worm_id (worms_placed st) = map (\<lambda>k. [char_of (65 + k)]) [0..<i]"
    and srt: "sorted_wrt (apart rows cols) (worms_placed st)"
    by (simp_all add: gen_inv_def)
  have ok: "placed_ok rows cols ?wd"
    using b g by (auto simp: placed_ok_def body_ok_def)
  have ap: "\<forall>a \<in> set (worms_placed st). apart rows cols a ?wd"
  proof
    fix a assume a: "a \<in> set (worms_placed st)"
    then have sub: "set (p_segments a) \<subseteq> occupied st" using occ by auto
    have "set (p_segments a) \<inter> set (body @ [(hr, hc)]) = {}"
      using sub b free by (auto simp: body_ok_def)
    moreover have "cells_ahead d hr hc rows cols \<inter> set (p_segments a) = {}"
      using sub corr exit_corridor_cells_ahead [OF g, of d] by auto
    ultimately show "apart rows cols a ?wd" by (simp add: apart_def)
  qed
  show ?thesis
    using occ oks ids srt ok ap
    by (auto simp: gen_inv_def record_worm_def sorted_wrt_append)
qed

lemma place_worms_inv:
  "place_worms k i rows cols mnb mxb st g = Inr (Some st', g') \<Longrightarrow>
   gen_inv rows cols i st \<Longrightarrow>
   \<exists>j. i \<le> j \<and> j \<le> i + k \<and> gen_inv rows cols j st'"
proof (induction k arbitrary: i st g)
  case 0
  then show ?case by auto
next
  case (Suc k)
  let ?pa = "place_attempts 300 rows cols (occupied st) (target_cells_of st)
               (max_depth_of i rows cols) mnb mxb g"
  show ?case
  proof (cases ?pa)
    case (Inl e)
    with Suc.prems show ?thesis by simp
  next
    case (Inr rg)
    obtain ro g1 where rg: "rg = (ro, g1)" by (cases rg)
    show ?thesis
    proof (cases ro)
      case None
      with Suc.prems Inr rg have "st' = st" by (simp split: if_splits)
      with Suc.prems(2) show ?thesis by auto
    next
      case (Some res)
      obtain hr hc d corridor body where res: "res = (hr, hc, d, corridor, body)"
        by (cases res)
      from place_attempts_Some Inr rg Some res have
        "head_ok rows cols (occupied st) (hr, hc, d, corridor)"
        "body_ok rows cols (occupied st) hr hc d body"
        by blast+
      then have inv': "gen_inv rows cols (Suc i) (record_worm i res st)"
        unfolding res by (rule record_worm_inv [OF Suc.prems(2)])
      from Suc.prems(1) Inr rg Some have
        "place_worms k (Suc i) rows cols mnb mxb (record_worm i res st) g1 = Inr (Some st', g')"
        by simp
      from Suc.IH [OF this inv'] obtain j where
        "Suc i \<le> j" "j \<le> Suc i + k" "gen_inv rows cols j st'" by blast
      then have "i \<le> j \<and> j \<le> i + Suc k \<and> gen_inv rows cols j st'" by simp
      then show ?thesis ..
    qed
  qed
qed

section \<open>The grid the generator draws\<close>

definition grid_shape :: "int \<Rightarrow> int \<Rightarrow> string list list \<Rightarrow> bool" where
  "grid_shape rows cols grid \<longleftrightarrow>
     length grid = nat rows \<and> (\<forall>row \<in> set grid. length row = nat cols)"

definition cell_at :: "string list list \<Rightarrow> cell \<Rightarrow> string" where
  "cell_at grid p = grid ! nat (fst p) ! nat (snd p)"

text \<open>What drawing a worm does to the content of the cells: the head first, then the body.\<close>

definition paint_worm :: "placement \<Rightarrow> (cell \<Rightarrow> string) \<Rightarrow> cell \<Rightarrow> string" where
  "paint_worm wd f q =
     (if q \<in> set (p_body wd) then map lower_char (p_worm_id wd)
      else if q = p_head wd then map upper_char (p_worm_id wd)
      else f q)"

definition meta_of :: "placement \<Rightarrow> worm_meta" where
  "meta_of wd = \<lparr>meta_color = Some (p_color wd),
                 meta_direction = direction_name (p_direction wd)\<rparr>"

lemma blank_shape:
  "grid_shape rows cols (replicate (nat rows) (replicate (nat cols) v))"
  by (simp add: grid_shape_def)

lemma blank_cell:
  "in_grid (fst q) (snd q) rows cols \<Longrightarrow>
   cell_at (replicate (nat rows) (replicate (nat cols) v)) q = v"
  by (simp add: cell_at_def in_grid_def)

lemma set_cell_in_grid:
  assumes "grid_shape rows cols grid" and "in_grid (fst p) (snd p) rows cols"
  shows "\<exists>grid'. set_cell grid p v = Inr grid' \<and> grid_shape rows cols grid'
           \<and> (\<forall>q. in_grid (fst q) (snd q) rows cols \<longrightarrow>
                  cell_at grid' q = (if q = p then v else cell_at grid q))"
proof -
  let ?i = "nat (fst p)" and ?j = "nat (snd p)"
  from assms have i: "?i < length grid" and pi: "py_index (length grid) (fst p) = Some ?i"
    by (auto simp: grid_shape_def in_grid_def py_index_def)
  with assms have lr: "length (grid ! ?i) = nat cols"
    by (simp add: grid_shape_def)
  with assms have j: "?j < length (grid ! ?i)"
    and pj: "py_index (length (grid ! ?i)) (snd p) = Some ?j"
    by (auto simp: in_grid_def py_index_def)
  let ?g = "grid[?i := (grid ! ?i)[?j := v]]"
  have s: "set_cell grid p v = Inr ?g" by (simp add: set_cell_def pi pj)
  have sh: "grid_shape rows cols ?g"
    using assms(1) lr by (auto simp: grid_shape_def dest!: set_update_subset_insert [THEN subsetD])
  have c: "\<forall>q. in_grid (fst q) (snd q) rows cols \<longrightarrow>
                  cell_at ?g q = (if q = p then v else cell_at grid q)"
  proof (intro allI impI)
    fix q assume q: "in_grid (fst q) (snd q) rows cols"
    have eqi: "nat (fst q) = ?i \<longleftrightarrow> fst q = fst p"
      using q assms(2) by (auto simp: in_grid_def)
    have eqj: "nat (snd q) = ?j \<longleftrightarrow> snd q = snd p"
      using q assms(2) by (auto simp: in_grid_def)
    show "cell_at ?g q = (if q = p then v else cell_at grid q)"
    proof (cases "fst q = fst p")
      case True
      with eqi have "nat (fst q) = ?i" by simp
      with i j eqj show ?thesis
        by (cases "snd q = snd p")
           (auto simp: cell_at_def prod_eq_iff True nth_list_update)
    next
      case False
      with eqi have "nat (fst q) \<noteq> ?i" by simp
      with False show ?thesis by (auto simp: cell_at_def)
    qed
  qed
  from s sh c show ?thesis by blast
qed

lemma set_cells_in_grid:
  "grid_shape rows cols grid \<Longrightarrow> \<forall>p \<in> set ps. in_grid (fst p) (snd p) rows cols \<Longrightarrow>
   \<exists>grid'. set_cells grid ps v = Inr grid' \<and> grid_shape rows cols grid'
      \<and> (\<forall>q. in_grid (fst q) (snd q) rows cols \<longrightarrow>
             cell_at grid' q = (if q \<in> set ps then v else cell_at grid q))"
proof (induction ps arbitrary: grid)
  case Nil
  then show ?case by simp
next
  case (Cons p ps)
  from Cons.prems have p: "in_grid (fst p) (snd p) rows cols" by simp
  from set_cell_in_grid [OF Cons.prems(1) p, of v] obtain g1 where
    g1: "set_cell grid p v = Inr g1" "grid_shape rows cols g1"
    "\<forall>q. in_grid (fst q) (snd q) rows cols \<longrightarrow>
        cell_at g1 q = (if q = p then v else cell_at grid q)"
    by blast
  from Cons.IH [OF g1(2)] Cons.prems(2) obtain g2 where
    g2: "set_cells g1 ps v = Inr g2" "grid_shape rows cols g2"
    "\<forall>q. in_grid (fst q) (snd q) rows cols \<longrightarrow>
        cell_at g2 q = (if q \<in> set ps then v else cell_at g1 q)"
    by auto
  have "set_cells grid (p # ps) v = Inr g2" using g1(1) g2(1) by simp
  moreover have "\<forall>q. in_grid (fst q) (snd q) rows cols \<longrightarrow>
        cell_at g2 q = (if q \<in> set (p # ps) then v else cell_at grid q)"
    using g1(3) g2(3) by auto
  ultimately show ?case using g2(2) by blast
qed

lemma fold_paint_cong:
  "\<forall>q. in_grid (fst q) (snd q) rows cols \<longrightarrow> f q = f' q \<Longrightarrow>
   in_grid (fst q) (snd q) rows cols \<Longrightarrow>
   fold paint_worm wds f q = fold paint_worm wds f' q"
proof (induction wds arbitrary: f f')
  case Nil
  then show ?case by (metis fold_simps(1))
next
  case (Cons wd wds)
  from Cons.prems(1) have
    "\<forall>q. in_grid (fst q) (snd q) rows cols \<longrightarrow> paint_worm wd f q = paint_worm wd f' q"
    by (simp add: paint_worm_def)
  from Cons.IH [OF this Cons.prems(2)] show ?case by simp
qed

lemma draw_worms_content:
  "grid_shape rows cols grid \<Longrightarrow>
   \<forall>wd \<in> set wds. \<forall>p \<in> set (p_head wd # p_body wd). in_grid (fst p) (snd p) rows cols \<Longrightarrow>
   \<exists>grid'. draw_worms wds grid worms_meta
              = Inr (grid', fold (\<lambda>wd m. AList.update (p_worm_id wd) (meta_of wd) m)
                             wds worms_meta)
      \<and> grid_shape rows cols grid'
      \<and> (\<forall>q. in_grid (fst q) (snd q) rows cols \<longrightarrow>
             cell_at grid' q = fold paint_worm wds (cell_at grid) q)"
proof (induction wds arbitrary: grid worms_meta)
  case Nil
  then show ?case by simp
next
  case (Cons wd wds)
  from Cons.prems(2) have h: "in_grid (fst (p_head wd)) (snd (p_head wd)) rows cols"
    and b: "\<forall>p \<in> set (p_body wd). in_grid (fst p) (snd p) rows cols"
    and rest: "\<forall>wd \<in> set wds. \<forall>p \<in> set (p_head wd # p_body wd).
                 in_grid (fst p) (snd p) rows cols"
    by simp_all
  from set_cell_in_grid [OF Cons.prems(1) h, of "map upper_char (p_worm_id wd)"]
  obtain g1 where
    g1: "set_cell grid (p_head wd) (map upper_char (p_worm_id wd)) = Inr g1"
    "grid_shape rows cols g1"
    "\<forall>q. in_grid (fst q) (snd q) rows cols \<longrightarrow>
        cell_at g1 q = (if q = p_head wd then map upper_char (p_worm_id wd)
                        else cell_at grid q)"
    by blast
  from set_cells_in_grid [OF g1(2) b, of "map lower_char (p_worm_id wd)"]
  obtain g2 where
    g2: "set_cells g1 (p_body wd) (map lower_char (p_worm_id wd)) = Inr g2"
    "grid_shape rows cols g2"
    "\<forall>q. in_grid (fst q) (snd q) rows cols \<longrightarrow>
        cell_at g2 q = (if q \<in> set (p_body wd) then map lower_char (p_worm_id wd)
                        else cell_at g1 q)"
    by blast
  have p: "\<forall>q. in_grid (fst q) (snd q) rows cols \<longrightarrow>
             cell_at g2 q = paint_worm wd (cell_at grid) q"
    using g1(3) g2(3) by (simp add: paint_worm_def)
  from Cons.IH [OF g2(2) rest,
      of "AList.update (p_worm_id wd) (meta_of wd) worms_meta"]
  obtain g3 where
    g3: "draw_worms wds g2 (AList.update (p_worm_id wd) (meta_of wd) worms_meta)
           = Inr (g3, fold (\<lambda>wd m. AList.update (p_worm_id wd) (meta_of wd) m) wds
                        (AList.update (p_worm_id wd) (meta_of wd) worms_meta))"
    "grid_shape rows cols g3"
    "\<forall>q. in_grid (fst q) (snd q) rows cols \<longrightarrow>
        cell_at g3 q = fold paint_worm wds (cell_at g2) q"
    by blast
  have d: "draw_worms (wd # wds) grid worms_meta
             = Inr (g3, fold (\<lambda>wd m. AList.update (p_worm_id wd) (meta_of wd) m)
                          (wd # wds) worms_meta)"
    using g1(1) g2(1) g3(1) by (simp add: meta_of_def)
  have c: "\<forall>q. in_grid (fst q) (snd q) rows cols \<longrightarrow>
             cell_at g3 q = fold paint_worm (wd # wds) (cell_at grid) q"
    using g3(3) fold_paint_cong [OF p] by simp
  from d g3(2) c show ?case by blast
qed

subsection \<open>Letters\<close>

lemma upper_letter: "k < 26 \<Longrightarrow> is_upper (char_of (65 + (k::nat)))"
  by (simp add: is_upper_def less_eq_char_def)

lemma lower_letter: "k < 26 \<Longrightarrow> is_lower (char_of (97 + (k::nat)))"
  by (simp add: is_lower_def less_eq_char_def)

lemma upper_not_lower: "is_upper ch \<Longrightarrow> \<not> is_lower ch"
  by (auto simp: is_upper_def is_lower_def less_eq_char_def)

lemma lower_not_upper: "is_lower ch \<Longrightarrow> \<not> is_upper ch"
  by (auto simp: is_upper_def is_lower_def less_eq_char_def)

lemma upper_char_upper: "is_upper ch \<Longrightarrow> upper_char ch = ch"
  by (simp add: upper_char_def upper_not_lower)

lemma lower_of_letter: "k < 26 \<Longrightarrow> lower_char (char_of (65 + (k::nat))) = char_of (97 + k)"
  by (simp add: lower_char_def upper_letter)

lemma upper_of_lower_letter:
  "k < 26 \<Longrightarrow> upper_char (char_of (97 + (k::nat))) = char_of (65 + k)"
  by (simp add: upper_char_def lower_letter)

lemma letter_inj:
  "k < 26 \<Longrightarrow> k' < 26 \<Longrightarrow> char_of (65 + (k::nat)) = (char_of (65 + (k'::nat)) :: char)
   \<Longrightarrow> k = k'"
  by (simp add: char_of_eq_iff take_bit_eq_mod)

lemma lower_letter_not_blank:
  "k < 26 \<Longrightarrow> char_of (97 + (k::nat)) \<noteq> CHR ''.'' \<and> char_of (97 + (k::nat)) \<noteq> CHR '' ''"
  by (simp add: char_of_eq_iff take_bit_eq_mod)

lemma dot_not_upper: "\<not> is_upper CHR ''.''"
  by (simp add: is_upper_def less_eq_char_def)

text \<open>The three glyphs of a worm with a letter id, as the scan classifies them.\<close>

lemma head_glyph:
  assumes "k < 26"
  shows "is_head_of wid (q, char_of (65 + (k::nat))) \<longleftrightarrow> wid = [char_of (65 + k)]"
    and "\<not> is_body_of wid (q, char_of (65 + (k::nat)))"
  using assms by (auto simp: is_head_of_def is_body_of_def upper_letter upper_char_upper)

lemma body_glyph:
  assumes "k < 26"
  shows "\<not> is_head_of wid (q, char_of (97 + (k::nat)))"
    and "is_body_of wid (q, char_of (97 + (k::nat))) \<longleftrightarrow> wid = [char_of (65 + k)]"
  using assms lower_letter_not_blank [OF assms] lower_not_upper [OF lower_letter [OF assms]]
  by (auto simp: is_head_of_def is_body_of_def upper_of_lower_letter)

lemma blank_glyph:
  "\<not> is_head_of wid (q, CHR ''.'')" "\<not> is_body_of wid (q, CHR ''.'')"
  by (simp_all add: is_head_of_def is_body_of_def dot_not_upper)

subsection \<open>The cells of a drawn grid\<close>

lemma row_cells_set:
  "set (row_cells r c0 row) = {((int r, int (c0 + j)), row ! j) | j. j < length row}"
proof (induction row arbitrary: c0)
  case Nil
  show ?case by simp
next
  case (Cons ch row)
  have "{((int r, int (c0 + j)), (ch # row) ! j) | j. j < length (ch # row)}
          = insert ((int r, int c0), ch)
              {((int r, int (Suc c0 + j)), row ! j) | j. j < length row}"
    (is "?A = insert ?x ?B")
  proof (intro set_eqI iffI)
    fix x assume "x \<in> ?A"
    then obtain j where j: "x = ((int r, int (c0 + j)), (ch # row) ! j)" "j < Suc (length row)"
      by auto
    show "x \<in> insert ?x ?B"
    proof (cases j)
      case 0
      with j show ?thesis by simp
    next
      case (Suc j')
      with j have "x = ((int r, int (Suc c0 + j')), row ! j') \<and> j' < length row" by simp
      then show ?thesis by blast
    qed
  next
    fix x assume "x \<in> insert ?x ?B"
    then consider "x = ?x" | j where "x = ((int r, int (Suc c0 + j)), row ! j)" "j < length row"
      by auto
    then show "x \<in> ?A"
    proof cases
      case 1
      then have "x = ((int r, int (c0 + 0)), (ch # row) ! 0) \<and> 0 < length (ch # row)"
        by simp
      then show ?thesis by blast
    next
      case 2
      then have "x = ((int r, int (c0 + Suc j)), (ch # row) ! Suc j)
                 \<and> Suc j < length (ch # row)" by simp
      then show ?thesis by blast
    qed
  qed
  with Cons.IH [of "Suc c0"] show ?case by simp
qed

lemma row_cells_positions: "map fst (row_cells r c0 row) = map (\<lambda>j. (int r, int j)) [c0 ..< c0 + length row]"
proof (induction row arbitrary: c0)
  case Nil
  show ?case by simp
next
  case (Cons ch row)
  have "[c0 ..< c0 + length (ch # row)] = c0 # [Suc c0 ..< Suc c0 + length row]"
    by (simp add: upt_rec)
  with Cons.IH [of "Suc c0"] show ?case by simp
qed

lemma grid_cells_rows:
  "p \<in> fst ` set (grid_cells r0 strs) \<Longrightarrow> int r0 \<le> fst p"
proof (induction strs arbitrary: r0)
  case Nil
  then show ?case by simp
next
  case (Cons row strs)
  from Cons.prems consider "p \<in> fst ` set (row_cells r0 0 row)"
    | "p \<in> fst ` set (grid_cells (Suc r0) strs)" by auto
  then show ?case
  proof cases
    case 1
    then show ?thesis by (auto simp: row_cells_set)
  next
    case 2
    from Cons.IH [OF this] show ?thesis by simp
  qed
qed

lemma grid_cells_distinct: "distinct (map fst (grid_cells r0 strs))"
proof (induction strs arbitrary: r0)
  case Nil
  show ?case by simp
next
  case (Cons row strs)
  have d: "distinct (map fst (row_cells r0 0 row))"
    by (simp add: row_cells_positions distinct_map inj_on_def)
  have "fst ` set (row_cells r0 0 row) \<inter> fst ` set (grid_cells (Suc r0) strs) = {}"
  proof (rule ccontr)
    assume "\<not> ?thesis"
    then obtain p where p: "p \<in> fst ` set (row_cells r0 0 row)"
      "p \<in> fst ` set (grid_cells (Suc r0) strs)" by blast
    from p(1) have "fst p = int r0" by (auto simp: row_cells_set)
    with grid_cells_rows [OF p(2)] show False by simp
  qed
  with d Cons.IH [of "Suc r0"] show ?case by simp
qed

lemma grid_cells_set:
  "set (grid_cells r0 strs)
     = {((int (r0 + i), int j), strs ! i ! j) | i j. i < length strs \<and> j < length (strs ! i)}"
proof (induction strs arbitrary: r0)
  case Nil
  show ?case by simp
next
  case (Cons row strs)
  let ?R = "{((int r0, int j), row ! j) | j. j < length row}"
  let ?G = "{((int (Suc r0 + i), int j), strs ! i ! j) | i j.
               i < length strs \<and> j < length (strs ! i)}"
  let ?A = "{((int (r0 + i), int j), (row # strs) ! i ! j) | i j.
               i < length (row # strs) \<and> j < length ((row # strs) ! i)}"
  have "?A = ?R \<union> ?G"
  proof (intro set_eqI iffI)
    fix x assume "x \<in> ?A"
    then obtain i j where x: "x = ((int (r0 + i), int j), (row # strs) ! i ! j)"
      "i < Suc (length strs)" "j < length ((row # strs) ! i)" by auto
    show "x \<in> ?R \<union> ?G"
    proof (cases i)
      case 0
      with x show ?thesis by simp
    next
      case (Suc i')
      with x have "x = ((int (Suc r0 + i'), int j), strs ! i' ! j)
                   \<and> i' < length strs \<and> j < length (strs ! i')" by simp
      then have "x \<in> ?G" by blast
      then show ?thesis ..
    qed
  next
    fix x assume "x \<in> ?R \<union> ?G"
    then consider j where "x = ((int r0, int j), row ! j)" "j < length row"
      | i j where "x = ((int (Suc r0 + i), int j), strs ! i ! j)"
          "i < length strs" "j < length (strs ! i)"
      by auto
    then show "x \<in> ?A"
    proof cases
      case 1
      then have "x = ((int (r0 + 0), int j), (row # strs) ! 0 ! j)
                 \<and> 0 < length (row # strs) \<and> j < length ((row # strs) ! 0)" by simp
      then show ?thesis by blast
    next
      case 2
      then have "x = ((int (r0 + Suc i), int j), (row # strs) ! Suc i ! j)
                 \<and> Suc i < length (row # strs) \<and> j < length ((row # strs) ! Suc i)"
        by simp
      then show ?thesis by blast
    qed
  qed
  then show ?case
    using Cons.IH [of "Suc r0"] row_cells_set [of r0 0 row] by simp
qed

subsection \<open>The glyphs of the placed worms\<close>

definition well_placed :: "int \<Rightarrow> int \<Rightarrow> placement list \<Rightarrow> bool" where
  "well_placed rows cols wds \<longleftrightarrow>
     (\<forall>wd \<in> set wds. placed_ok rows cols wd
                       \<and> (\<exists>k<26. p_worm_id wd = [char_of (65 + (k::nat))]))
     \<and> distinct (map p_worm_id wds)
     \<and> sorted_wrt (\<lambda>a b. set (p_segments a) \<inter> set (p_segments b) = {}) wds"

lemma letters_distinct: "i \<le> 26 \<Longrightarrow> distinct (map (\<lambda>k. [char_of (65 + (k::nat)) :: char]) [0..<i])"
  by (auto simp: distinct_map inj_on_def dest: letter_inj)

lemma gen_inv_well_placed:
  assumes "gen_inv rows cols i st" and "i \<le> 26"
  shows "well_placed rows cols (worms_placed st)"
proof -
  from assms(1) have oks: "\<forall>wd \<in> set (worms_placed st). placed_ok rows cols wd"
    and ids: "map p_worm_id (worms_placed st) = map (\<lambda>k. [char_of (65 + k)]) [0..<i]"
    and srt: "sorted_wrt (apart rows cols) (worms_placed st)"
    by (simp_all add: gen_inv_def)
  have "\<forall>wd \<in> set (worms_placed st). \<exists>k<26. p_worm_id wd = [char_of (65 + (k::nat))]"
  proof
    fix wd assume "wd \<in> set (worms_placed st)"
    then have "p_worm_id wd \<in> set (map p_worm_id (worms_placed st))" by simp
    with ids obtain k where "k < i" "p_worm_id wd = [char_of (65 + k)]" by auto
    with assms(2) have "k < 26 \<and> p_worm_id wd = [char_of (65 + k)]" by simp
    then show "\<exists>k<26. p_worm_id wd = [char_of (65 + (k::nat))]" by blast
  qed
  moreover have "distinct (map p_worm_id (worms_placed st))"
    unfolding ids by (rule letters_distinct [OF assms(2)])
  moreover have "sorted_wrt (\<lambda>a b. set (p_segments a) \<inter> set (p_segments b) = {})
                   (worms_placed st)"
    using srt by (rule sorted_wrt_mono_rel [rotated]) (simp add: apart_def)
  ultimately show ?thesis using oks by (simp add: well_placed_def)
qed

lemma sorted_wrt_pairwise:
  "sorted_wrt R xs \<Longrightarrow> a \<in> set xs \<Longrightarrow> b \<in> set xs \<Longrightarrow> a \<noteq> b \<Longrightarrow> R a b \<or> R b a"
  by (induction xs) auto

lemma well_placed_owner:
  assumes "well_placed rows cols wds" and "a \<in> set wds" and "b \<in> set wds"
    and "q \<in> set (p_segments a)" and "q \<in> set (p_segments b)"
  shows "a = b"
proof (rule ccontr)
  assume "a \<noteq> b"
  from assms(1) have
    "sorted_wrt (\<lambda>a b. set (p_segments a) \<inter> set (p_segments b) = {}) wds"
    by (simp add: well_placed_def)
  from sorted_wrt_pairwise [OF this assms(2,3) \<open>a \<noteq> b\<close>] assms(4,5) show False by auto
qed

lemma painted_find:
  assumes "well_placed rows cols wds"
  shows "fold paint_worm wds f q =
           (case find (\<lambda>wd. q \<in> set (p_segments wd)) wds of
              None \<Rightarrow> f q
            | Some wd \<Rightarrow> if q = p_head wd then map upper_char (p_worm_id wd)
                         else map lower_char (p_worm_id wd))"
  using assms
proof (induction wds arbitrary: f)
  case Nil
  show ?case by simp
next
  case (Cons wd wds)
  from Cons.prems have wp: "well_placed rows cols wds"
    and ok: "placed_ok rows cols wd"
    and dis: "\<forall>b \<in> set wds. set (p_segments wd) \<inter> set (p_segments b) = {}"
    by (auto simp: well_placed_def)
  from ok have seg: "set (p_segments wd) = insert (p_head wd) (set (p_body wd))"
    and hb: "p_head wd \<notin> set (p_body wd)"
    by (auto simp: placed_ok_def)
  show ?case
  proof (cases "q \<in> set (p_segments wd)")
    case True
    with dis have "\<forall>b \<in> set wds. q \<notin> set (p_segments b)" by auto
    then have "find (\<lambda>wd. q \<in> set (p_segments wd)) wds = None"
      by (simp add: find_None_iff)
    with True Cons.IH [OF wp, of "paint_worm wd f"] seg hb show ?thesis
      by (auto simp: paint_worm_def)
  next
    case False
    with seg have "paint_worm wd f q = f q" by (simp add: paint_worm_def)
    with False Cons.IH [OF wp, of "paint_worm wd f"] show ?thesis
      by (simp split: option.splits)
  qed
qed

text \<open>The character the scan reads at a cell of the drawn grid.\<close>

definition glyph :: "placement list \<Rightarrow> cell \<Rightarrow> char" where
  "glyph wds q = hd (fold paint_worm wds (\<lambda>_. ''.'') q)"

lemma painted_single:
  assumes "well_placed rows cols wds"
  shows "length (fold paint_worm wds (\<lambda>_. ''.'') q) = 1"
proof (cases "find (\<lambda>wd. q \<in> set (p_segments wd)) wds")
  case None
  then show ?thesis by (simp add: painted_find [OF assms])
next
  case (Some wd)
  then have "wd \<in> set wds" by (auto simp: find_Some_iff in_set_conv_nth)
  with assms obtain k :: nat where "p_worm_id wd = [char_of (65 + k)]"
    by (auto simp: well_placed_def)
  with Some show ?thesis by (simp add: painted_find [OF assms])
qed

lemma glyph_head_iff:
  assumes "well_placed rows cols wds"
  shows "is_head_of wid (q, glyph wds q)
           \<longleftrightarrow> (\<exists>wd \<in> set wds. q = p_head wd \<and> wid = p_worm_id wd)"
proof (cases "find (\<lambda>wd. q \<in> set (p_segments wd)) wds")
  case None
  then have no: "\<forall>wd \<in> set wds. q \<notin> set (p_segments wd)" by (simp add: find_None_iff)
  have "\<forall>wd \<in> set wds. p_head wd \<in> set (p_segments wd)"
    using assms by (auto simp: well_placed_def placed_ok_def)
  with no have "\<not> (\<exists>wd \<in> set wds. q = p_head wd \<and> wid = p_worm_id wd)" by blast
  with None show ?thesis
    by (simp add: glyph_def painted_find [OF assms] blank_glyph)
next
  case (Some wd')
  then have in': "wd' \<in> set wds" and q': "q \<in> set (p_segments wd')"
    by (auto simp: find_Some_iff in_set_conv_nth)
  with assms obtain k :: nat where k: "k < 26" "p_worm_id wd' = [char_of (65 + k)]"
    by (auto simp: well_placed_def)
  have heads: "\<And>wd. wd \<in> set wds \<Longrightarrow> p_head wd \<in> set (p_segments wd)"
    using assms by (auto simp: well_placed_def placed_ok_def)
  have only: "\<And>wd. wd \<in> set wds \<Longrightarrow> q = p_head wd \<Longrightarrow> wd = wd'"
    using well_placed_owner [OF assms _ in' _ q'] heads by blast
  show ?thesis
  proof (cases "q = p_head wd'")
    case True
    then have "glyph wds q = char_of (65 + k)"
      using Some k by (simp add: glyph_def painted_find [OF assms] upper_letter upper_char_upper)
    then have l: "is_head_of wid (q, glyph wds q) \<longleftrightarrow> wid = p_worm_id wd'"
      by (simp add: head_glyph [OF k(1)] k(2))
    have r: "(\<exists>wd \<in> set wds. q = p_head wd \<and> wid = p_worm_id wd) \<longleftrightarrow> wid = p_worm_id wd'"
    proof
      assume "\<exists>wd \<in> set wds. q = p_head wd \<and> wid = p_worm_id wd"
      then obtain wd where "wd \<in> set wds" "q = p_head wd" "wid = p_worm_id wd" by blast
      with only [of wd] show "wid = p_worm_id wd'" by simp
    next
      assume "wid = p_worm_id wd'"
      with True in' show "\<exists>wd \<in> set wds. q = p_head wd \<and> wid = p_worm_id wd" by blast
    qed
    from l r show ?thesis by simp
  next
    case False
    then have "glyph wds q = char_of (97 + k)"
      using Some k by (simp add: glyph_def painted_find [OF assms] lower_of_letter)
    then have l: "\<not> is_head_of wid (q, glyph wds q)"
      by (simp add: body_glyph [OF k(1)])
    have r: "\<not> (\<exists>wd \<in> set wds. q = p_head wd \<and> wid = p_worm_id wd)"
    proof
      assume "\<exists>wd \<in> set wds. q = p_head wd \<and> wid = p_worm_id wd"
      then obtain wd where "wd \<in> set wds" "q = p_head wd" by blast
      with only [of wd] False show False by simp
    qed
    from l r show ?thesis by simp
  qed
qed

lemma glyph_body_iff:
  assumes "well_placed rows cols wds"
  shows "is_body_of wid (q, glyph wds q)
           \<longleftrightarrow> (\<exists>wd \<in> set wds. q \<in> set (p_body wd) \<and> wid = p_worm_id wd)"
proof (cases "find (\<lambda>wd. q \<in> set (p_segments wd)) wds")
  case None
  then have no: "\<forall>wd \<in> set wds. q \<notin> set (p_segments wd)" by (simp add: find_None_iff)
  have "\<forall>wd \<in> set wds. set (p_body wd) \<subseteq> set (p_segments wd)"
    using assms by (auto simp: well_placed_def placed_ok_def)
  with no have "\<not> (\<exists>wd \<in> set wds. q \<in> set (p_body wd) \<and> wid = p_worm_id wd)" by blast
  with None show ?thesis
    by (simp add: glyph_def painted_find [OF assms] blank_glyph)
next
  case (Some wd')
  then have in': "wd' \<in> set wds" and q': "q \<in> set (p_segments wd')"
    by (auto simp: find_Some_iff in_set_conv_nth)
  with assms obtain k :: nat where k: "k < 26" "p_worm_id wd' = [char_of (65 + k)]"
    by (auto simp: well_placed_def)
  from assms in' have seg: "set (p_segments wd') = insert (p_head wd') (set (p_body wd'))"
    and hb: "p_head wd' \<notin> set (p_body wd')"
    by (auto simp: well_placed_def placed_ok_def)
  have bodies: "\<And>wd. wd \<in> set wds \<Longrightarrow> set (p_body wd) \<subseteq> set (p_segments wd)"
    using assms by (auto simp: well_placed_def placed_ok_def)
  have only: "\<And>wd. wd \<in> set wds \<Longrightarrow> q \<in> set (p_body wd) \<Longrightarrow> wd = wd'"
    using well_placed_owner [OF assms _ in' _ q'] bodies by blast
  show ?thesis
  proof (cases "q = p_head wd'")
    case True
    then have "glyph wds q = char_of (65 + k)"
      using Some k by (simp add: glyph_def painted_find [OF assms] upper_letter upper_char_upper)
    then have l: "\<not> is_body_of wid (q, glyph wds q)"
      by (simp add: head_glyph [OF k(1)])
    have r: "\<not> (\<exists>wd \<in> set wds. q \<in> set (p_body wd) \<and> wid = p_worm_id wd)"
    proof
      assume "\<exists>wd \<in> set wds. q \<in> set (p_body wd) \<and> wid = p_worm_id wd"
      then obtain wd where "wd \<in> set wds" "q \<in> set (p_body wd)" by blast
      with only [of wd] True hb show False by simp
    qed
    from l r show ?thesis by simp
  next
    case False
    then have "glyph wds q = char_of (97 + k)"
      using Some k by (simp add: glyph_def painted_find [OF assms] lower_of_letter)
    then have l: "is_body_of wid (q, glyph wds q) \<longleftrightarrow> wid = p_worm_id wd'"
      by (simp add: body_glyph [OF k(1)] k(2))
    from False q' seg have qb: "q \<in> set (p_body wd')" by simp
    have r: "(\<exists>wd \<in> set wds. q \<in> set (p_body wd) \<and> wid = p_worm_id wd)
               \<longleftrightarrow> wid = p_worm_id wd'"
    proof
      assume "\<exists>wd \<in> set wds. q \<in> set (p_body wd) \<and> wid = p_worm_id wd"
      then obtain wd where "wd \<in> set wds" "q \<in> set (p_body wd)" "wid = p_worm_id wd"
        by blast
      with only [of wd] show "wid = p_worm_id wd'" by simp
    next
      assume "wid = p_worm_id wd'"
      with qb in' show "\<exists>wd \<in> set wds. q \<in> set (p_body wd) \<and> wid = p_worm_id wd"
        by blast
    qed
    from l r show ?thesis by simp
  qed
qed

section \<open>Loading a generated level\<close>

lemma concat_singletons: "\<forall>x \<in> set xs. length x = 1 \<Longrightarrow> concat xs = map hd xs"
proof (induction xs)
  case Nil
  show ?case by simp
next
  case (Cons x xs)
  then have "length x = 1" by simp
  then obtain c where "x = [c]" by (cases x) auto
  with Cons show ?case by simp
qed

lemma drawn_cells:
  assumes sh: "grid_shape rows cols G"
    and ct: "\<forall>q. in_grid (fst q) (snd q) rows cols \<longrightarrow> cell_at G q = s q"
    and one: "\<forall>q. length (s q) = 1"
  shows "set (grid_cells 0 (map concat G))
           = {(q, hd (s q)) | q. in_grid (fst q) (snd q) rows cols}"
proof -
  have len: "length G = nat rows" using sh by (simp add: grid_shape_def)
  have row: "\<And>i. i < nat rows \<Longrightarrow> length (G ! i) = nat cols"
    using sh by (simp add: grid_shape_def)
  have cell: "\<And>i j. i < nat rows \<Longrightarrow> j < nat cols \<Longrightarrow> G ! i ! j = s (int i, int j)"
  proof -
    fix i j assume "i < nat rows" "j < nat cols"
    then have "in_grid (fst (int i, int j)) (snd (int i, int j)) rows cols"
      by (auto simp: in_grid_def)
    with ct have "cell_at G (int i, int j) = s (int i, int j)" by blast
    then show "G ! i ! j = s (int i, int j)" by (simp add: cell_at_def)
  qed
  have cat: "\<And>i. i < nat rows \<Longrightarrow> concat (G ! i) = map hd (G ! i)"
  proof -
    fix i assume i: "i < nat rows"
    have "\<forall>x \<in> set (G ! i). length x = 1"
    proof
      fix x assume "x \<in> set (G ! i)"
      then obtain j where "j < length (G ! i)" "x = G ! i ! j"
        by (auto simp: in_set_conv_nth)
      with i row cell one show "length x = 1" by simp
    qed
    then show "concat (G ! i) = map hd (G ! i)" by (rule concat_singletons)
  qed
  have str: "\<And>i j. i < nat rows \<Longrightarrow> j < nat cols \<Longrightarrow>
               map concat G ! i ! j = hd (s (int i, int j))"
    using len row cell cat by simp
  have strlen: "\<And>i. i < nat rows \<Longrightarrow> length (map concat G ! i) = nat cols"
    using len row cat by simp
  show ?thesis
  proof (intro set_eqI iffI)
    fix x assume "x \<in> set (grid_cells 0 (map concat G))"
    then obtain i j where x: "x = ((int i, int j), map concat G ! i ! j)"
      "i < length (map concat G)" "j < length (map concat G ! i)"
      by (auto simp: grid_cells_set)
    with len strlen have ij: "i < nat rows" "j < nat cols" by simp_all
    then have "in_grid (fst (int i, int j)) (snd (int i, int j)) rows cols"
      by (auto simp: in_grid_def)
    moreover from x ij str have "x = ((int i, int j), hd (s (int i, int j)))" by simp
    ultimately show "x \<in> {(q, hd (s q)) | q. in_grid (fst q) (snd q) rows cols}" by blast
  next
    fix x assume "x \<in> {(q, hd (s q)) | q. in_grid (fst q) (snd q) rows cols}"
    then obtain q where q: "x = (q, hd (s q))" "in_grid (fst q) (snd q) rows cols" by blast
    let ?i = "nat (fst q)" and ?j = "nat (snd q)"
    from q(2) have ij: "?i < nat rows" "?j < nat cols" and qq: "q = (int ?i, int ?j)"
      by (auto simp: in_grid_def prod_eq_iff)
    from str [OF ij] qq have "map concat G ! ?i ! ?j = hd (s q)" by simp
    with q(1) qq have "x = ((int (0 + ?i), int ?j), map concat G ! ?i ! ?j)" by simp
    moreover have "?i < length (map concat G)" using ij len by simp
    moreover have "?j < length (map concat G ! ?i)" using ij strlen by simp
    ultimately show "x \<in> set (grid_cells 0 (map concat G))"
      unfolding grid_cells_set by blast
  qed
qed

lemma distinct_singleton: "distinct xs \<Longrightarrow> set xs = {h} \<Longrightarrow> xs = [h]"
  by (cases xs) (auto simp: insert_eq_iff dest: subset_singletonD)

lemma distinct_at_most_one:
  assumes "distinct xs" and "\<And>a b. a \<in> set xs \<Longrightarrow> b \<in> set xs \<Longrightarrow> a = b"
  shows "length xs \<le> 1"
proof (cases xs)
  case Nil
  then show ?thesis by simp
next
  case (Cons a ys)
  show ?thesis
  proof (cases ys)
    case Nil
    with Cons show ?thesis by simp
  next
    case (Cons b zs)
    with \<open>xs = a # ys\<close> assms(2) [of a b] assms(1) show ?thesis by auto
  qed
qed

text \<open>What the scan finds on a grid whose cells hold the glyphs of well-placed worms.\<close>

lemma scan_of_glyphs:
  assumes wp: "well_placed rows cols wds"
    and di: "distinct (map fst cells)"
    and st: "set cells = {(q, glyph wds q) | q. in_grid (fst q) (snd q) rows cols}"
  shows "single_heads cells"
    and "\<And>wd. wd \<in> set wds \<Longrightarrow> heads_of cells (p_worm_id wd) = [p_head wd]"
    and "\<And>wd. wd \<in> set wds \<Longrightarrow> set (bodies_of cells (p_worm_id wd)) = set (p_body wd)"
proof -
  have dh: "\<And>wid. distinct (heads_of cells wid)"
    unfolding heads_of_def using di by (rule distinct_map_filter)
  have sel: "\<And>P. set (map fst (filter P cells))
               = {q. in_grid (fst q) (snd q) rows cols \<and> P (q, glyph wds q)}"
  proof (intro set_eqI iffI)
    fix P q assume "q \<in> set (map fst (filter P cells))"
    then obtain x where "x \<in> set cells" "P x" "q = fst x" by auto
    with st show "q \<in> {q. in_grid (fst q) (snd q) rows cols \<and> P (q, glyph wds q)}"
      by auto
  next
    fix P q assume "q \<in> {q. in_grid (fst q) (snd q) rows cols \<and> P (q, glyph wds q)}"
    then have "in_grid (fst q) (snd q) rows cols" and pq: "P (q, glyph wds q)" by simp_all
    then have "(q, glyph wds q) \<in> {(q, glyph wds q) | q. in_grid (fst q) (snd q) rows cols}"
      by blast
    with pq have "(q, glyph wds q) \<in> set cells" "P (q, glyph wds q)"
      unfolding st by blast+
    then have "(q, glyph wds q) \<in> set (filter P cells)" by simp
    then have "fst (q, glyph wds q) \<in> fst ` set (filter P cells)" by (rule imageI)
    then show "q \<in> set (map fst (filter P cells))" by simp
  qed
  have sh: "\<And>wid. set (heads_of cells wid)
              = {q. in_grid (fst q) (snd q) rows cols
                    \<and> (\<exists>wd \<in> set wds. q = p_head wd \<and> wid = p_worm_id wd)}"
    unfolding heads_of_def sel glyph_head_iff [OF wp] ..
  have sb: "\<And>wid. set (bodies_of cells wid)
              = {q. in_grid (fst q) (snd q) rows cols
                    \<and> (\<exists>wd \<in> set wds. q \<in> set (p_body wd) \<and> wid = p_worm_id wd)}"
    unfolding bodies_of_def sel glyph_body_iff [OF wp] ..
  have uniq: "\<And>a b. a \<in> set wds \<Longrightarrow> b \<in> set wds \<Longrightarrow> p_worm_id a = p_worm_id b \<Longrightarrow> a = b"
    using wp by (auto simp: well_placed_def distinct_map dest: inj_onD)
  have ing: "\<And>wd p. wd \<in> set wds \<Longrightarrow> p \<in> set (p_segments wd) \<Longrightarrow>
               in_grid (fst p) (snd p) rows cols"
    using wp by (auto simp: well_placed_def placed_ok_def)
  have segs: "\<And>wd. wd \<in> set wds \<Longrightarrow>
                set (p_segments wd) = insert (p_head wd) (set (p_body wd))"
    using wp by (auto simp: well_placed_def placed_ok_def)
  show "single_heads cells"
    unfolding single_heads_def
  proof
    fix wid
    show "length (heads_of cells wid) \<le> 1"
    proof (rule distinct_at_most_one [OF dh])
      fix a b assume "a \<in> set (heads_of cells wid)" "b \<in> set (heads_of cells wid)"
      then obtain wa wb where "wa \<in> set wds" "a = p_head wa" "wid = p_worm_id wa"
        "wb \<in> set wds" "b = p_head wb" "wid = p_worm_id wb"
        unfolding sh by blast
      with uniq [of wa wb] show "a = b" by simp
    qed
  qed
  show "\<And>wd. wd \<in> set wds \<Longrightarrow> heads_of cells (p_worm_id wd) = [p_head wd]"
  proof -
    fix wd assume wd: "wd \<in> set wds"
    have "set (heads_of cells (p_worm_id wd)) = {p_head wd}"
    proof (intro set_eqI iffI)
      fix q assume "q \<in> set (heads_of cells (p_worm_id wd))"
      then obtain w where "w \<in> set wds" "q = p_head w" "p_worm_id wd = p_worm_id w"
        unfolding sh by blast
      with uniq [OF wd, of w] show "q \<in> {p_head wd}" by simp
    next
      fix q assume "q \<in> {p_head wd}"
      then have q: "q = p_head wd" by simp
      with ing [OF wd, of q] segs [OF wd] have "in_grid (fst q) (snd q) rows cols" by simp
      with q wd show "q \<in> set (heads_of cells (p_worm_id wd))" unfolding sh by blast
    qed
    with dh show "heads_of cells (p_worm_id wd) = [p_head wd]"
      by (rule distinct_singleton)
  qed
  show "\<And>wd. wd \<in> set wds \<Longrightarrow> set (bodies_of cells (p_worm_id wd)) = set (p_body wd)"
  proof -
    fix wd assume wd: "wd \<in> set wds"
    show "set (bodies_of cells (p_worm_id wd)) = set (p_body wd)"
    proof (intro set_eqI iffI)
      fix q assume "q \<in> set (bodies_of cells (p_worm_id wd))"
      then obtain w where "w \<in> set wds" "q \<in> set (p_body w)" "p_worm_id wd = p_worm_id w"
        unfolding sb by blast
      with uniq [OF wd, of w] show "q \<in> set (p_body wd)" by simp
    next
      fix q assume q: "q \<in> set (p_body wd)"
      with ing [OF wd, of q] segs [OF wd] have "in_grid (fst q) (snd q) rows cols" by simp
      with q wd show "q \<in> set (bodies_of cells (p_worm_id wd))" unfolding sb by blast
    qed
  qed
qed

subsection \<open>The worms \<open>load_level\<close> builds from the drawn grid\<close>

definition loaded_worm :: "(cell \<times> char) list \<Rightarrow> placement \<Rightarrow> Worm" where
  "loaded_worm cells wd =
     \<lparr>worm_id = p_worm_id wd,
      segments = sort_key (sort_keys (p_direction wd))
                   (bodies_of cells (p_worm_id wd) @ [p_head wd]),
      direction = p_direction wd,
      color = p_color wd\<rparr>"

lemma update_fresh: "k \<notin> fst ` set al \<Longrightarrow> AList.update k v al = al @ [(k, v)]"
  by (induction al) auto

lemma fold_update_fresh:
  "distinct (map fst m @ map p_worm_id wds) \<Longrightarrow>
   fold (\<lambda>wd m. AList.update (p_worm_id wd) (meta_of wd) m) wds m
     = m @ map (\<lambda>wd. (p_worm_id wd, meta_of wd)) wds"
proof (induction wds arbitrary: m)
  case Nil
  show ?case by simp
next
  case (Cons wd wds)
  from Cons.prems have fresh: "p_worm_id wd \<notin> fst ` set m"
    and d: "distinct (map fst (m @ [(p_worm_id wd, meta_of wd)]) @ map p_worm_id wds)"
    by auto
  from Cons.IH [OF d] fresh show ?case by (simp add: update_fresh)
qed

lemma direction_round_trip: "direction_of_name (direction_name d) = Some d"
  by (cases d) (simp_all add: direction_of_name_def)

lemma valid_not_violation:
  "valid_cell d hr hc r c \<Longrightarrow> \<not> leading_violation (direction_name d) (hr, hc) (r, c)"
  by (cases d) (auto simp: valid_cell_def split: if_splits)

lemma valid_key:
  "valid_cell d hr hc r c \<Longrightarrow> sort_keys d (r, c) \<le> sort_keys d (hr, hc)"
  by (cases d) (auto simp: valid_cell_def split: if_splits)

lemma insort_key_last:
  "ys \<noteq> [] \<Longrightarrow> f x \<le> f (last ys) \<Longrightarrow>
   insort_key f x ys \<noteq> [] \<and> last (insort_key f x ys) = last ys"
proof (induction ys)
  case Nil
  then show ?case by simp
next
  case (Cons y ys)
  show ?case
  proof (cases "f x \<le> f y")
    case True
    then show ?thesis by simp
  next
    case False
    with Cons.prems have ne: "ys \<noteq> []" by auto
    with Cons.prems have "f x \<le> f (last ys)" by simp
    from Cons.IH [OF ne this] False ne show ?thesis by simp
  qed
qed

lemma sort_key_snoc_last:
  assumes "\<forall>x \<in> set xs. f x \<le> f h"
  shows "last (sort_key f (xs @ [h])) = h"
proof -
  have "foldr (insort_key f) xs [h] \<noteq> [] \<and> last (foldr (insort_key f) xs [h]) = h"
    using assms
  proof (induction xs)
    case Nil
    show ?case by simp
  next
    case (Cons x xs)
    then have ih: "foldr (insort_key f) xs [h] \<noteq> []"
      "last (foldr (insort_key f) xs [h]) = h" and x: "f x \<le> f h"
      by simp_all
    from insort_key_last [OF ih(1), of f x] ih(2) x show ?case by simp
  qed
  then show ?thesis by (simp add: sort_key_def)
qed

lemma build_worm_loaded:
  assumes h: "heads_of cells (p_worm_id wd) = [p_head wd]"
    and b: "set (bodies_of cells (p_worm_id wd)) = set (p_body wd)"
    and ok: "placed_ok rows cols wd"
  shows "build_worm (summary cells) (p_worm_id wd) (meta_of wd) = Inr (loaded_worm cells wd)"
proof -
  from h have s: "summary cells (p_worm_id wd)
                    = Some (Some (p_head wd), bodies_of cells (p_worm_id wd))"
    by (simp add: summary_def)
  have "\<forall>q \<in> set (bodies_of cells (p_worm_id wd)).
          \<not> leading_violation (direction_name (p_direction wd)) (p_head wd) q"
  proof
    fix q assume "q \<in> set (bodies_of cells (p_worm_id wd))"
    with b ok have "valid_cell (p_direction wd) (fst (p_head wd)) (snd (p_head wd))
                      (fst q) (snd q)"
      by (simp add: placed_ok_def)
    from valid_not_violation [OF this]
    show "\<not> leading_violation (direction_name (p_direction wd)) (p_head wd) q" by simp
  qed
  then have f: "find (leading_violation (direction_name (p_direction wd)) (p_head wd))
                  (bodies_of cells (p_worm_id wd)) = None"
    by (simp add: find_None_iff)
  show ?thesis
    by (simp add: build_worm_def s f meta_of_def direction_round_trip loaded_worm_def)
qed

lemma build_worms_map:
  "\<forall>wd \<in> set wds. build_worm cm (p_worm_id wd) (meta_of wd) = Inr (f wd) \<Longrightarrow>
   build_worms cm (map (\<lambda>wd. (p_worm_id wd, meta_of wd)) wds) = Inr (map f wds)"
  by (induction wds) auto

lemma loaded_worm_shape:
  assumes b: "set (bodies_of cells (p_worm_id wd)) = set (p_body wd)"
    and ok: "placed_ok rows cols wd"
  shows "set (segments (loaded_worm cells wd)) = set (p_segments wd)"
    and "segments (loaded_worm cells wd) \<noteq> []"
    and "last (segments (loaded_worm cells wd)) = p_head wd"
proof -
  from ok have seg: "p_segments wd = p_body wd @ [p_head wd]" by (simp add: placed_ok_def)
  show "set (segments (loaded_worm cells wd)) = set (p_segments wd)"
    using b seg by (simp add: loaded_worm_def)
  have "set (segments (loaded_worm cells wd)) \<noteq> {}"
    by (simp add: loaded_worm_def)
  then show "segments (loaded_worm cells wd) \<noteq> []" by auto
  have "\<forall>q \<in> set (bodies_of cells (p_worm_id wd)).
          sort_keys (p_direction wd) q \<le> sort_keys (p_direction wd) (p_head wd)"
  proof
    fix q assume "q \<in> set (bodies_of cells (p_worm_id wd))"
    with b ok have "valid_cell (p_direction wd) (fst (p_head wd)) (snd (p_head wd))
                      (fst q) (snd q)"
      by (simp add: placed_ok_def)
    from valid_key [OF this]
    show "sort_keys (p_direction wd) q \<le> sort_keys (p_direction wd) (p_head wd)" by simp
  qed
  then show "last (segments (loaded_worm cells wd)) = p_head wd"
    by (simp add: loaded_worm_def sort_key_snoc_last)
qed

subsection \<open>A generated level is layered\<close>

lemma generated_level_loads:
  assumes inv: "gen_inv rows cols i st" and le: "i \<le> 26"
    and bl: "build_level rows cols n (worms_placed st) = Inr (Some ld, order, msg)"
  shows "\<exists>name ws. load_level ld = Inr (rows, cols, name, ws) \<and> layered rows cols ws
           \<and> map worm_id ws = order \<and> order = map p_worm_id (worms_placed st)"
proof -
  let ?wds = "worms_placed st"
  let ?blank = "replicate (nat rows) (replicate (nat cols) ''.'')"
  let ?s = "fold paint_worm ?wds (\<lambda>_. ''.'')"
  have wp: "well_placed rows cols ?wds" by (rule gen_inv_well_placed [OF inv le])
  then have oks: "\<forall>wd \<in> set ?wds. placed_ok rows cols wd"
    and dids: "distinct (map p_worm_id ?wds)"
    by (simp_all add: well_placed_def)
  have ing: "\<forall>wd \<in> set ?wds. \<forall>p \<in> set (p_head wd # p_body wd).
               in_grid (fst p) (snd p) rows cols"
    using oks by (auto simp: placed_ok_def)
  from draw_worms_content [OF blank_shape ing, of "''.''" "[]"] obtain G where
    dr: "draw_worms ?wds ?blank []
           = Inr (G, fold (\<lambda>wd m. AList.update (p_worm_id wd) (meta_of wd) m) ?wds [])"
    and sh: "grid_shape rows cols G"
    and ct: "\<forall>q. in_grid (fst q) (snd q) rows cols \<longrightarrow>
               cell_at G q = fold paint_worm ?wds (cell_at ?blank) q"
    by blast
  have metas: "fold (\<lambda>wd m. AList.update (p_worm_id wd) (meta_of wd) m) ?wds []
                 = map (\<lambda>wd. (p_worm_id wd, meta_of wd)) ?wds"
    using fold_update_fresh [of "[]" ?wds] dids by simp
  have ct': "\<forall>q. in_grid (fst q) (snd q) rows cols \<longrightarrow> cell_at G q = ?s q"
  proof (intro allI impI)
    fix q assume q: "in_grid (fst q) (snd q) rows cols"
    have "\<forall>q. in_grid (fst q) (snd q) rows cols \<longrightarrow> cell_at ?blank q = (\<lambda>_. ''.'') q"
      by (simp add: blank_cell)
    from fold_paint_cong [OF this q, of ?wds]
    have "fold paint_worm ?wds (cell_at ?blank) q = ?s q" .
    moreover from ct q have "cell_at G q = fold paint_worm ?wds (cell_at ?blank) q"
      by blast
    ultimately show "cell_at G q = ?s q" by (simp only:)
  qed
  let ?cells = "grid_cells 0 (map concat G)"
  have st: "set ?cells = {(q, glyph ?wds q) | q. in_grid (fst q) (snd q) rows cols}"
    using drawn_cells [OF sh ct'] painted_single [OF wp] by (simp add: glyph_def)
  note scan = scan_of_glyphs [OF wp grid_cells_distinct st]
  from bl dr metas have ne: "?wds \<noteq> []"
    and ld: "ld = \<lparr>ld_name = Some (''Generated '' @ show_int rows @ ''x'' @ show_int cols
                                    @ '' ('' @ show_nat (length ?wds) @ '' worms)''),
                   ld_rows = rows, ld_cols = cols, ld_grid = map concat G,
                   ld_worms = map (\<lambda>wd. (p_worm_id wd, meta_of wd)) ?wds\<rparr>"
    and ord: "order = map p_worm_id ?wds"
    by (auto simp: build_level_def split: if_splits)
  have sg: "scan_grid 0 (ld_grid ld) Map.empty = Inr (summary ?cells)"
    using scan(1) by (subst scan_grid_summary) (simp add: ld)
  have "\<forall>wd \<in> set ?wds. build_worm (summary ?cells) (p_worm_id wd) (meta_of wd)
                             = Inr (loaded_worm ?cells wd)"
    using build_worm_loaded [OF scan(2) scan(3)] oks by blast
  then have "build_worms (summary ?cells) (map (\<lambda>wd. (p_worm_id wd, meta_of wd)) ?wds)
               = Inr (map (loaded_worm ?cells) ?wds)"
    by (rule build_worms_map)
  then have bw: "build_worms (summary ?cells) (ld_worms ld)
                   = Inr (map (loaded_worm ?cells) ?wds)"
    by (simp add: ld)
  let ?ws = "map (loaded_worm ?cells) ?wds"
  have ll: "load_level ld
              = Inr (rows, cols,
                     ''Generated '' @ show_int rows @ ''x'' @ show_int cols
                       @ '' ('' @ show_nat (length ?wds) @ '' worms)'', ?ws)"
    by (simp add: load_level_def sg bw) (simp add: ld)
  have ids: "map worm_id ?ws = map p_worm_id ?wds"
    by (simp add: loaded_worm_def comp_def)
  have shape: "\<And>wd. wd \<in> set ?wds \<Longrightarrow>
      set (segments (loaded_worm ?cells wd)) = set (p_segments wd)
      \<and> segments (loaded_worm ?cells wd) \<noteq> []
      \<and> last (segments (loaded_worm ?cells wd)) = p_head wd"
    using loaded_worm_shape [OF scan(3)] oks by blast
  have hd: "\<forall>w \<in> set ?ws. headed rows cols w"
  proof
    fix w assume "w \<in> set ?ws"
    then obtain wd where wd: "wd \<in> set ?wds" "w = loaded_worm ?cells wd" by auto
    with ing have "in_grid (fst (p_head wd)) (snd (p_head wd)) rows cols" by simp
    with shape [OF wd(1)] wd(2) show "headed rows cols w" by (simp add: headed_def)
  qed
  have "sorted_wrt (apart rows cols) ?wds" using inv by (simp add: gen_inv_def)
  then have "sorted_wrt (\<lambda>a b. corridor_of rows cols (loaded_worm ?cells b)
                               \<inter> set (segments (loaded_worm ?cells a)) = {}) ?wds"
  proof (rule sorted_wrt_mono_rel [rotated])
    fix a b assume "a \<in> set ?wds" "b \<in> set ?wds" "apart rows cols a b"
    with shape [of a] shape [of b]
    show "corridor_of rows cols (loaded_worm ?cells b)
            \<inter> set (segments (loaded_worm ?cells a)) = {}"
      by (simp add: apart_def corridor_of_def) (simp add: loaded_worm_def)
  qed
  then have srt: "sorted_wrt (\<lambda>a b. corridor_of rows cols b \<inter> set (segments a) = {}) ?ws"
    by (simp add: sorted_wrt_map)
  have "distinct (map worm_id ?ws)" using dids by (simp only: ids)
  then have "layered rows cols ?ws"
    using hd srt by (simp only: layered_def simp_thms)
  with ll ids ord show ?thesis by blast
qed

lemma generated_state:
  assumes "generate_level seed_state g rows cols num_worms min_len max_len seed
             = Inr ((Some ld, order, msg), g')"
  shows "\<exists>st i. gen_inv rows cols i st \<and> i \<le> nat num_worms
           \<and> build_level rows cols num_worms (worms_placed st) = Inr (Some ld, order, msg)"
proof -
  let ?g0 = "case seed of None \<Rightarrow> g | Some s \<Rightarrow> seed_state s"
  let ?init = "\<lparr>occupied = {}, worms_placed = [], corridors = []\<rparr>"
  from assms obtain st where
    pw: "place_worms (nat num_worms) 0 rows cols (max (min_len - 1) 0) (max_len - 1)
           ?init ?g0 = Inr (Some st, g')"
    and bl: "build_level rows cols num_worms (worms_placed st) = Inr (Some ld, order, msg)"
    by (auto simp: generate_level_def split: sum.splits option.splits)
  from place_worms_inv [OF pw gen_inv_init] obtain j where
    "j \<le> nat num_worms" "gen_inv rows cols j st" by auto
  with bl show ?thesis by blast
qed

lemma generated_run:
  assumes gen: "generate_level seed_state g rows cols num_worms min_len max_len seed
                  = Inr ((Some ld, order, msg), g')"
    and le: "num_worms \<le> 26"
  shows "\<exists>mid extraction rounds.
           solve ld = Inr (True, mid @ final_report extraction rounds, extraction, rounds)
           \<and> mset extraction = mset order
           \<and> rounds \<le> length order
           \<and> (rounds = length order \<longrightarrow> extraction = rev order)"
proof -
  from generated_state [OF gen] obtain st i where
    inv: "gen_inv rows cols i st" and i: "i \<le> nat num_worms"
    and bl: "build_level rows cols num_worms (worms_placed st) = Inr (Some ld, order, msg)"
    by blast
  from i le have "i \<le> 26" by simp
  from generated_level_loads [OF inv this bl] obtain name ws where
    ll: "load_level ld = Inr (rows, cols, name, ws)" and ly: "layered rows cols ws"
    and ids: "map worm_id ws = order"
    by blast
  from layered_solved [OF ly, of "[]" "[]" 0] obtain mid extra n' where
    "is_solvable_loop rows cols ws [] [] 0
       = Inr (True, mid @ final_report extra n', extra, n')"
    "mset extra = mset (map worm_id ws)" "n' \<le> length ws"
    "n' = length ws \<longrightarrow> extra = rev (map worm_id ws)"
    by auto
  moreover have "length ws = length order" using ids by (metis length_map)
  ultimately show ?thesis using ll ids by (auto simp: solve_def)
qed

section \<open>Extraction order of a generated level\<close>

text \<open>Two runs of the generator on the all-zero draw sequence, and the levels they return.\<close>

definition GEN_3x3 :: level_data where
  "GEN_3x3 =
     \<lparr>ld_name = Some ''Generated 3x3 (2 worms)'', ld_rows = 3, ld_cols = 3,
      ld_grid = [''...'', ''A..'', ''.B.''],
      ld_worms =
        [(''A'', \<lparr>meta_color = Some ''red'', meta_direction = ''down''\<rparr>),
         (''B'', \<lparr>meta_color = Some ''blue'', meta_direction = ''up''\<rparr>)]\<rparr>"

definition GEN_6x6 :: level_data where
  "GEN_6x6 =
     \<lparr>ld_name = Some ''Generated 6x6 (2 worms)'', ld_rows = 6, ld_cols = 6,
      ld_grid = [''......'', ''......'', ''......'', ''Aa....'', ''Bb....'', ''......''],
      ld_worms =
        [(''A'', \<lparr>meta_color = Some ''red'', meta_direction = ''down''\<rparr>),
         (''B'', \<lparr>meta_color = Some ''blue'', meta_direction = ''down''\<rparr>)]\<rparr>"

lemma gen_3x3:
  "generate_level (\<lambda>s. []) [] 3 3 2 1 1 (Some 0)
     = Inr ((Some GEN_3x3, [''A'', ''B''], ''OK''), [])"
  by code_simp

lemma gen_6x6:
  "generate_level (\<lambda>s. []) [] 6 6 2 2 2 (Some 0)
     = Inr ((Some GEN_6x6, [''A'', ''B''], ''OK''), [])"
  by code_simp

text \<open>
  C2, as the code has it.  When \<open>generate_level\<close> returns a layout for a request of at most
  26 worms (so in particular on full success), the solver clears it: its report ends with
  the lines of the final report for an extraction order that holds every placed id exactly
  once, in at most as many rounds as there are worms.  When the solver needs as many rounds
  as there are worms, that is when every round frees a single worm, the extraction order is
  exactly the reverse of the placement order.
\<close>

theorem generated_extraction_order:
  assumes "generate_level seed_state g rows cols num_worms min_len max_len seed
             = Inr ((Some ld, order, msg), g')"
    and "num_worms \<le> 26"
  shows "\<exists>mid extraction rounds.
           is_solvable ld = Inr (True, mid @ final_report extraction rounds)
           \<and> solve ld = Inr (True, mid @ final_report extraction rounds, extraction, rounds)
           \<and> mset extraction = mset order
           \<and> rounds \<le> length order
           \<and> (rounds = length order \<longrightarrow> extraction = rev order)"
proof -
  from generated_run [OF assms] obtain mid extraction rounds where
    r: "solve ld = Inr (True, mid @ final_report extraction rounds, extraction, rounds)"
    "mset extraction = mset order" "rounds \<le> length order"
    "rounds = length order \<longrightarrow> extraction = rev order"
    by blast
  from r(1) have "is_solvable ld = Inr (True, mid @ final_report extraction rounds)"
    by (simp add: is_solvable_def)
  with r show ?thesis by blast
qed

theorem generated_extraction_order_witness:
  "solve GEN_6x6
     = Inr (True,
            [''Round 1: extract [B]'', ''  [A] still blocked by: B'',
             ''Round 2: extract [A]'']
            @ final_report (rev [''A'', ''B'']) 2,
            rev [''A'', ''B''], 2)"
proof -
  have le: "(2::int) \<le> 26" by simp
  from generated_extraction_order [OF gen_6x6 le] obtain mid extraction rounds where
    s: "solve GEN_6x6 = Inr (True, mid @ final_report extraction rounds, extraction, rounds)"
    and e: "rounds = length [''A'', ''B''] \<longrightarrow> extraction = rev [''A'', ''B'']"
    by blast
  have c: "solve GEN_6x6
     = Inr (True,
            [''Round 1: extract [B]'', ''  [A] still blocked by: B'',
             ''Round 2: extract [A]'']
            @ final_report [''B'', ''A''] 2,
            [''B'', ''A''], 2)"
    by code_simp
  from s c have "rounds = 2" by simp
  with e have "extraction = rev [''A'', ''B'']" by simp
  with s c show ?thesis by simp
qed

text \<open>
  The claim as the specification words it fails: on \<open>GEN_3x3\<close>, which the generator returns
  with full success for two worms placed in the order A, B, neither worm is in the other's
  corridor, the solver frees both in round 1 in ascending order of id, and its extraction
  order A, B is the placement order, not its reverse.
\<close>

theorem generated_order_not_reversed:
  "generate_level (\<lambda>s. []) [] 3 3 2 1 1 (Some 0)
     = Inr ((Some GEN_3x3, [''A'', ''B''], ''OK''), [])
   \<and> is_solvable GEN_3x3
       = Inr (True,
              [''Round 1: extract [A], [B]'', [],
               ''Extraction order: A '' @ right_arrow @ '' B  (1 round)'',
               ''Verdict: SOLVABLE''])
   \<and> solve GEN_3x3
       = Inr (True,
              [''Round 1: extract [A], [B]'', [],
               ''Extraction order: A '' @ right_arrow @ '' B  (1 round)'',
               ''Verdict: SOLVABLE''],
              [''A'', ''B''], 1)
   \<and> [''A'', ''B''] \<noteq> rev [''A'', ''B'']"
  by code_simp

section \<open>Determinism of the generator\<close>

text \<open>
  C7.  Two calls of \<open>generate_level\<close> with the same rows, columns, worm count and length
  bounds and the same seed (not \<open>None\<close>) return the same level data, placement order and
  message, and leave the random source in the same state, whatever the state of the
  process-wide random source was before either call.
\<close>

theorem generate_level_seeded:
  "generate_level seed_state g1 rows cols num_worms min_len max_len (Some s)
     = generate_level seed_state g2 rows cols num_worms min_len max_len (Some s)"
  by (simp add: generate_level_def)

end
